theory Spec2Isabelle
  imports Main
begin

section \<open>Objects and the store\<close>

text \<open>
  candidate.py works on Python objects that are shared by reference: a \<open>ca.FileAST\<close>
  object whose attribute \<open>ext\<close> references a list object, whose items reference the
  top-level declaration nodes. The aliasing between the cached tree and the candidates'
  trees is what the code is about, so objects live in an explicit store and values
  hold addresses.

  A top-level declaration (a \<open>ca.FuncDef\<close> among them) is one cell that holds its whole
  subtree as a value: \<open>copy.deepcopy\<close> of such a node is a new cell with an equal value,
  and a mutation anywhere inside the subtree is an update of the cell.
\<close>

type_synonym addr = nat

datatype tree = Node string "tree list"

datatype obj = FileAST addr | PyList "addr list" | NodeObj tree

type_synonym store = "obj list"

datatype exn =
  ParseError | FunctionNotFound | RandomizationFailure | ScoringError
  | IndexError | AttributeError | TypeError

text \<open>A new object gets the next address; no object is ever freed.\<close>

definition alloc :: "store \<Rightarrow> obj \<Rightarrow> addr \<times> store" where
  "alloc h x = (length h, h @ [x])"

definition deref :: "store \<Rightarrow> addr \<Rightarrow> obj option" where
  "deref h a = (if a < length h then Some (h ! a) else None)"

text \<open>\<open>ast.ext\<close>\<close>

definition getattr_ext :: "store \<Rightarrow> addr \<Rightarrow> exn + addr" where
  "getattr_ext h a =
     (case deref h a of Some (FileAST l) \<Rightarrow> Inr l | _ \<Rightarrow> Inl AttributeError)"

text \<open>\<open>ast.ext = l\<close>\<close>

definition setattr_ext :: "store \<Rightarrow> addr \<Rightarrow> addr \<Rightarrow> exn + store" where
  "setattr_ext h a l =
     (case deref h a of Some (FileAST _) \<Rightarrow> Inr (h[a := FileAST l]) | _ \<Rightarrow> Inl AttributeError)"

text \<open>The items of a list object.\<close>

definition list_items :: "store \<Rightarrow> addr \<Rightarrow> exn + addr list" where
  "list_items h l =
     (case deref h l of Some (PyList xs) \<Rightarrow> Inr xs | _ \<Rightarrow> Inl TypeError)"

text \<open>\<open>l[i]\<close>, for an index that is not negative.\<close>

definition getitem :: "store \<Rightarrow> addr \<Rightarrow> nat \<Rightarrow> exn + addr" where
  "getitem h l i =
     (case deref h l of
        Some (PyList xs) \<Rightarrow> if i < length xs then Inr (xs ! i) else Inl IndexError
      | _ \<Rightarrow> Inl TypeError)"

text \<open>\<open>l[i] = b\<close>, for an index that is not negative.\<close>

definition setitem :: "store \<Rightarrow> addr \<Rightarrow> nat \<Rightarrow> addr \<Rightarrow> exn + store" where
  "setitem h l i b =
     (case deref h l of
        Some (PyList xs) \<Rightarrow>
          if i < length xs then Inr (h[l := PyList (xs[i := b])]) else Inl IndexError
      | _ \<Rightarrow> Inl TypeError)"

text \<open>The subtree held by a declaration node.\<close>

definition node_at :: "store \<Rightarrow> addr \<Rightarrow> tree option" where
  "node_at h a = (case deref h a of Some (NodeObj t) \<Rightarrow> Some t | _ \<Rightarrow> None)"

text \<open>
  \<open>copy.copy\<close>: a new object with the same attribute values, so the same references.
  candidate.py takes shallow copies of the \<open>FileAST\<close> object and of its list only; a
  shallow copy of a declaration node would share the node's children, which a cell
  holding the subtree as a value does not express, so that case is left out as an error.
\<close>

definition copy_copy :: "store \<Rightarrow> addr \<Rightarrow> exn + (addr \<times> store)" where
  "copy_copy h a =
     (case deref h a of
        Some (FileAST l) \<Rightarrow> Inr (alloc h (FileAST l))
      | Some (PyList xs) \<Rightarrow> Inr (alloc h (PyList xs))
      | _ \<Rightarrow> Inl TypeError)"

text \<open>
  \<open>copy.deepcopy\<close> of a declaration node: a new cell holding an equal subtree.
  candidate.py deep-copies the function definition only.
\<close>

definition deepcopy :: "store \<Rightarrow> addr \<Rightarrow> exn + (addr \<times> store)" where
  "deepcopy h a =
     (case deref h a of
        Some (NodeObj t) \<Rightarrow> Inr (alloc h (NodeObj t))
      | _ \<Rightarrow> Inl TypeError)"

text \<open>
  The tree value reachable from a \<open>FileAST\<close> object: what a traversal of the object
  graph reads. It fails where the traversal would (an object of the wrong kind).
\<close>

definition snapshot :: "store \<Rightarrow> addr \<Rightarrow> exn + tree" where
  "snapshot h a =
     (case getattr_ext h a of
        Inl e \<Rightarrow> Inl e
      | Inr l \<Rightarrow>
          (case list_items h l of
             Inl e \<Rightarrow> Inl e
           | Inr xs \<Rightarrow>
               (case those (map (node_at h) xs) of
                  None \<Rightarrow> Inl AttributeError
                | Some ts \<Rightarrow> Inr (Node ''FileAST'' ts))))"

section \<open>The world outside a candidate\<close>

text \<open>
  The calls that leave candidate.py are recorded in a trace, so that "is invoked" and
  "is not invoked again" are statements about the trace.
\<close>

datatype event =
  ParseCall string string
  | RandomizeCall addr nat
  | RenderCall addr
  | CompileCall string bool
  | ScoreCall "string option"
  | RemoveCall string

type_synonym shared = "addr \<times> nat \<times> addr"

record world =
  heap :: store
  lru :: "((string \<times> string) \<times> shared) list"
  files :: "string set"
  trace :: "event list"

text \<open>
  The collaborators whose code is not in candidate.py, taken as parameters:
  \<^item> \<open>parse_extract\<close>: \<open>CParser().parse\<close>, \<open>ast_util.extract_fn\<close> and
    \<open>ast_util.normalize_ast\<close> together, a function of the source text and the function
    name. It returns the normalized translation unit split at the target function (the
    declarations before it, the function definition, the declarations after it), or the
    failure it signals.
  \<^item> \<open>mutate\<close>: the randomization engine's transformation of the function definition's
    subtree, from the engine's random state; it returns the failure it signals if any,
    the subtree it leaves behind and its next random state.
  \<^item> \<open>to_c\<close>: \<open>ast_util.to_c\<close>, the renderer, a pure function of the tree's content.
\<close>

record env =
  parse_extract :: "string \<Rightarrow> string \<Rightarrow> exn + (tree list \<times> tree \<times> tree list)"
  mutate :: "int \<Rightarrow> tree \<Rightarrow> exn option \<times> tree \<times> int"
  to_c :: "tree \<Rightarrow> string"

type_synonym scorer = "string option \<Rightarrow> exn + (int \<times> string)"

type_synonym compiler = "string \<Rightarrow> bool \<Rightarrow> string set \<Rightarrow> string option \<times> string set"

section \<open>candidate.py\<close>

datatype profiler = Profiler

record CandidateResult =
  score_f :: int
  hash_f :: string
  source_f :: "string option"
  profiler_f :: profiler

record Candidate =
  ast :: addr
  orig_fn :: addr
  fn_index :: nat
  rng_seed :: int
  randomizer :: int
  score_value :: "int option"
  score_hash :: "string option"
  cache_source :: "string option"

text \<open>
  The body of \<open>Candidate._cached_shared_ast\<close>.

  Modelled from the spec: the tree normalizer (\<open>CParser\<close>, \<open>ast_util.extract_fn\<close> and
  \<open>ast_util.normalize_ast\<close> are not among the sources) parses the source text into a
  tree and returns the named function's definition together with its position in the
  tree's list of top-level declarations, or fails. So the parsed and normalized
  translation unit becomes objects in the store, and the function definition returned
  is the item at the index returned.
\<close>

definition shared_ast :: "env \<Rightarrow> string \<Rightarrow> string \<Rightarrow> world \<Rightarrow> (exn + shared) \<times> world" where
  "shared_ast E source fn_name w =
     (let w1 = w\<lparr>trace := trace w @ [ParseCall source fn_name]\<rparr> in
      case parse_extract E source fn_name of
        Inl e \<Rightarrow> (Inl e, w1)
      | Inr (pre, fn, post) \<Rightarrow>
          (let h = heap w1;
               ts = pre @ fn # post;
               xs = [length h ..< length h + length ts];
               h1 = h @ map NodeObj ts;
               (l, h2) = alloc h1 (PyList xs);
               (a, h3) = alloc h2 (FileAST l)
           in (Inr (length h + length pre, length pre, a), w1\<lparr>heap := h3\<rparr>)))"

text \<open>
  \<open>@functools.lru_cache(maxsize=16)\<close> around it: the entries are kept most recently
  used first. A hit returns the stored value and makes its entry the most recent one; a
  miss calls the function, and stores its value unless the call raises; when that is
  one entry too many, the least recently used one is dropped.
\<close>

definition maxsize :: nat where
  "maxsize = 16"

definition cached_shared_ast :: "env \<Rightarrow> string \<Rightarrow> string \<Rightarrow> world \<Rightarrow> (exn + shared) \<times> world" where
  "cached_shared_ast E source fn_name w =
     (let key = (source, fn_name) in
      case map_of (lru w) key of
        Some v \<Rightarrow> (Inr v, w\<lparr>lru := (key, v) # filter (\<lambda>kv. fst kv \<noteq> key) (lru w)\<rparr>)
      | None \<Rightarrow>
          (case shared_ast E source fn_name w of
             (Inl e, w1) \<Rightarrow> (Inl e, w1)
           | (Inr v, w1) \<Rightarrow> (Inr v, w1\<lparr>lru := take maxsize ((key, v) # lru w1)\<rparr>)))"

text \<open>\<open>Candidate.from_source\<close>\<close>

definition from_source :: "env \<Rightarrow> string \<Rightarrow> string \<Rightarrow> int \<Rightarrow> world \<Rightarrow> (exn + Candidate) \<times> world" where
  "from_source E source fn_name seed w =
     (case cached_shared_ast E source fn_name w of
        (Inl e, w1) \<Rightarrow> (Inl e, w1)
      | (Inr (fn0, idx, ast0), w1) \<Rightarrow>
          (case copy_copy (heap w1) ast0 of
             Inl e \<Rightarrow> (Inl e, w1)
           | Inr (ast1, h1) \<Rightarrow>
               (case getattr_ext h1 ast1 of
                  Inl e \<Rightarrow> (Inl e, w1\<lparr>heap := h1\<rparr>)
                | Inr l0 \<Rightarrow>
                    (case copy_copy h1 l0 of
                       Inl e \<Rightarrow> (Inl e, w1\<lparr>heap := h1\<rparr>)
                     | Inr (l1, h2) \<Rightarrow>
                         (case setattr_ext h2 ast1 l1 of
                            Inl e \<Rightarrow> (Inl e, w1\<lparr>heap := h2\<rparr>)
                          | Inr h3 \<Rightarrow>
                              (case deepcopy h3 fn0 of
                                 Inl e \<Rightarrow> (Inl e, w1\<lparr>heap := h3\<rparr>)
                               | Inr (fn1, h4) \<Rightarrow>
                                   (case getattr_ext h4 ast1 of
                                      Inl e \<Rightarrow> (Inl e, w1\<lparr>heap := h4\<rparr>)
                                    | Inr l2 \<Rightarrow>
                                        (case setitem h4 l2 idx fn1 of
                                           Inl e \<Rightarrow> (Inl e, w1\<lparr>heap := h4\<rparr>)
                                         | Inr h5 \<Rightarrow>
                                             (Inr \<lparr>ast = ast1, orig_fn = fn0, fn_index = idx,
                                                   rng_seed = seed, randomizer = seed,
                                                   score_value = None, score_hash = None,
                                                   cache_source = None\<rparr>,
                                              w1\<lparr>heap := h5\<rparr>)))))))))"

text \<open>
  Modelled from the spec: \<open>Randomizer.randomize\<close> (randomizer.py is not among the
  sources). Constructed from a seed, its random state starts as the seed. Given a tree
  and the index of the target function, it applies one transformation in place to the
  function definition found at that index, the only part of the tree a component may
  mutate, and advances its random state. When it signals a failure the subtree is left
  as the engine left it.
\<close>

definition randomize :: "env \<Rightarrow> int \<Rightarrow> addr \<Rightarrow> nat \<Rightarrow> store \<Rightarrow> (exn + unit) \<times> int \<times> store" where
  "randomize E rng a i h =
     (case getattr_ext h a of
        Inl e \<Rightarrow> (Inl e, rng, h)
      | Inr l \<Rightarrow>
          (case getitem h l i of
             Inl e \<Rightarrow> (Inl e, rng, h)
           | Inr f \<Rightarrow>
               (case node_at h f of
                  None \<Rightarrow> (Inl AttributeError, rng, h)
                | Some t \<Rightarrow>
                    (case mutate E rng t of
                       (Some e, t', rng') \<Rightarrow> (Inl e, rng', h[f := NodeObj t'])
                     | (None, t', rng') \<Rightarrow> (Inr (), rng', h[f := NodeObj t'])))))"

text \<open>
  \<open>Candidate.randomize_ast\<close>: the second statement runs only when the first one returns.
\<close>

definition randomize_ast :: "env \<Rightarrow> Candidate \<Rightarrow> world \<Rightarrow> (exn + unit) \<times> Candidate \<times> world" where
  "randomize_ast E c w =
     (let w1 = w\<lparr>trace := trace w @ [RandomizeCall (ast c) (fn_index c)]\<rparr> in
      case randomize E (randomizer c) (ast c) (fn_index c) (heap w1) of
        (Inl e, rng', h') \<Rightarrow> (Inl e, c\<lparr>randomizer := rng'\<rparr>, w1\<lparr>heap := h'\<rparr>)
      | (Inr u, rng', h') \<Rightarrow>
          (Inr (), c\<lparr>randomizer := rng', cache_source := None\<rparr>, w1\<lparr>heap := h'\<rparr>))"

text \<open>
  \<open>Candidate.get_source\<close>. \<open>is None\<close> tests for the absent value only: an empty
  rendering is cached like any other.
\<close>

definition get_source :: "env \<Rightarrow> Candidate \<Rightarrow> world \<Rightarrow> (exn + string) \<times> Candidate \<times> world" where
  "get_source E c w =
     (case cache_source c of
        None \<Rightarrow>
          (let w1 = w\<lparr>trace := trace w @ [RenderCall (ast c)]\<rparr> in
           case snapshot (heap w1) (ast c) of
             Inl e \<Rightarrow> (Inl e, c, w1)
           | Inr t \<Rightarrow> (Inr (to_c E t), c\<lparr>cache_source := Some (to_c E t)\<rparr>, w1))
      | Some s \<Rightarrow> (Inr s, c, w))"

text \<open>\<open>Candidate.compile\<close>\<close>

definition compile ::
  "env \<Rightarrow> Candidate \<Rightarrow> compiler \<Rightarrow> bool \<Rightarrow> world \<Rightarrow> (exn + string option) \<times> Candidate \<times> world" where
  "compile E c cc show_errors w =
     (case get_source E c w of
        (Inl e, c1, w1) \<Rightarrow> (Inl e, c1, w1)
      | (Inr source, c1, w1) \<Rightarrow>
          (case cc source show_errors (files w1) of
             (r, fs) \<Rightarrow>
               (Inr r, c1,
                w1\<lparr>files := fs, trace := trace w1 @ [CompileCall source show_errors]\<rparr>)))"

text \<open>
  Modelled from the spec: \<open>helpers.try_remove\<close> (helpers.py is not among the sources)
  removes the file from persistent storage; a file that is not there is no failure.
\<close>

definition try_remove :: "string \<Rightarrow> world \<Rightarrow> world" where
  "try_remove path w = w\<lparr>files := files w - {path}, trace := trace w @ [RemoveCall path]\<rparr>"

text \<open>
  \<open>Candidate.score\<close>. The \<open>finally\<close> block runs whether the scorer returns or raises;
  \<open>if o_file\<close> is false for \<open>None\<close> and for the empty string. The two fields are
  assigned only once the scorer has returned its pair.
\<close>

definition score ::
  "env \<Rightarrow> Candidate \<Rightarrow> scorer \<Rightarrow> string option \<Rightarrow> world \<Rightarrow> (exn + CandidateResult) \<times> Candidate \<times> world" where
  "score E c sc o_file w =
     (let c1 = c\<lparr>score_value := None, score_hash := None\<rparr>;
          w1 = w\<lparr>trace := trace w @ [ScoreCall o_file]\<rparr>;
          r = sc o_file;
          c2 = (case r of
                  Inl e \<Rightarrow> c1
                | Inr (v, fp) \<Rightarrow> c1\<lparr>score_value := Some v, score_hash := Some fp\<rparr>);
          w2 = (case o_file of
                  None \<Rightarrow> w1
                | Some p \<Rightarrow> if p \<noteq> [] then try_remove p w1 else w1)
      in case r of
           Inl e \<Rightarrow> (Inl e, c2, w2)
         | Inr (v, fp) \<Rightarrow>
             (case get_source E c2 w2 of
                (Inl e, c3, w3) \<Rightarrow> (Inl e, c3, w3)
              | (Inr s, c3, w3) \<Rightarrow>
                  (Inr \<lparr>score_f = v, hash_f = fp, source_f = Some s, profiler_f = Profiler\<rparr>,
                   c3, w3)))"

section \<open>Observing a run\<close>

text \<open>What a call added to the trace, and the calls of each kind in it.\<close>

definition new_events :: "world \<Rightarrow> world \<Rightarrow> event list" where
  "new_events w w' = drop (length (trace w)) (trace w')"

fun removed :: "event list \<Rightarrow> string list" where
  "removed [] = []"
| "removed (RemoveCall p # es) = p # removed es"
| "removed (e # es) = removed es"

fun scored :: "event list \<Rightarrow> string option list" where
  "scored [] = []"
| "scored (ScoreCall a # es) = a # scored es"
| "scored (e # es) = scored es"

fun rendered :: "event list \<Rightarrow> addr list" where
  "rendered [] = []"
| "rendered (RenderCall a # es) = a # rendered es"
| "rendered (e # es) = rendered es"

fun parsed :: "event list \<Rightarrow> (string \<times> string) list" where
  "parsed [] = []"
| "parsed (ParseCall s f # es) = (s, f) # parsed es"
| "parsed (e # es) = parsed es"

definition world_of :: "'a \<times> 'b \<times> world \<Rightarrow> world" where
  "world_of r = snd (snd r)"

definition cand_of :: "'a \<times> Candidate \<times> 'b \<Rightarrow> Candidate" where
  "cand_of r = fst (snd r)"

section \<open>The candidate's life as a state machine\<close>

text \<open>
  The operations on a candidate once it is built, applied in any order; what a call
  returns or raises is dropped here, the candidate and the world it leaves are kept.
\<close>

datatype op = Randomize | GetSource | Compile compiler bool | Score scorer "string option"

fun step :: "env \<Rightarrow> op \<Rightarrow> Candidate \<times> world \<Rightarrow> Candidate \<times> world" where
  "step E Randomize (c, w) = snd (randomize_ast E c w)"
| "step E GetSource (c, w) = snd (get_source E c w)"
| "step E (Compile cc show_errors) (c, w) = snd (compile E c cc show_errors w)"
| "step E (Score sc o_file) (c, w) = snd (score E c sc o_file w)"

definition run :: "env \<Rightarrow> op list \<Rightarrow> Candidate \<times> world \<Rightarrow> Candidate \<times> world" where
  "run E ops s = fold (step E) ops s"

definition paired :: "Candidate \<Rightarrow> bool" where
  "paired c = ((score_value c = None) = (score_hash c = None))"

section \<open>Which objects belong to whom\<close>

text \<open>
  The objects a \<open>FileAST\<close> object leads to when the store is well formed there: its
  list and the list's items, all of them declaration nodes. A cache entry is sound when
  its function node is the item at its index. A candidate owns its \<open>FileAST\<close> object,
  its list and the node in its function slot; it reaches these and the other items.
  Candidates are kept apart from the cache and from one another when no candidate owns
  an object that a cache entry or another candidate reaches.
\<close>

definition layout :: "store \<Rightarrow> addr \<Rightarrow> (addr \<times> addr list) option" where
  "layout h a =
     (case deref h a of
        Some (FileAST l) \<Rightarrow>
          (case deref h l of
             Some (PyList xs) \<Rightarrow>
               if list_all (\<lambda>b. node_at h b \<noteq> None) xs then Some (l, xs) else None
           | _ \<Rightarrow> None)
      | _ \<Rightarrow> None)"

definition entry_ok :: "store \<Rightarrow> shared \<Rightarrow> bool" where
  "entry_ok h v =
     (case v of (fn0, idx, ast0) \<Rightarrow>
        (case layout h ast0 of
           None \<Rightarrow> False
         | Some (l, xs) \<Rightarrow> idx < length xs \<and> xs ! idx = fn0))"

definition own :: "store \<Rightarrow> addr \<times> nat \<Rightarrow> addr set" where
  "own h p = (case layout h (fst p) of None \<Rightarrow> {} | Some (l, xs) \<Rightarrow> {fst p, l, xs ! snd p})"

definition reach :: "store \<Rightarrow> addr \<Rightarrow> addr set" where
  "reach h a = (case layout h a of None \<Rightarrow> {} | Some (l, xs) \<Rightarrow> insert a (insert l (set xs)))"

definition slot_ok :: "store \<Rightarrow> addr \<times> nat \<Rightarrow> bool" where
  "slot_ok h p = (case layout h (fst p) of None \<Rightarrow> False | Some (l, xs) \<Rightarrow> snd p < length xs)"

definition foot :: "Candidate \<Rightarrow> addr \<times> nat" where
  "foot c = (ast c, fn_index c)"

definition sep :: "(addr \<times> nat) list \<Rightarrow> store \<Rightarrow> shared set \<Rightarrow> bool" where
  "sep fps h es \<longleftrightarrow>
     (\<forall>v\<in>es. entry_ok h v) \<and>
     (\<forall>p\<in>set fps. slot_ok h p) \<and>
     distinct (map fst fps) \<and>
     (\<forall>p\<in>set fps. \<forall>v\<in>es. own h p \<inter> reach h (snd (snd v)) = {}) \<and>
     (\<forall>p\<in>set fps. \<forall>q\<in>set fps. fst p \<noteq> fst q \<longrightarrow> own h p \<inter> reach h (fst q) = {})"

text \<open>Several candidates living in one world, built and operated on in any order.\<close>

record sys =
  cands :: "Candidate list"
  wld :: world

datatype cmd = Create string string int | On nat op

fun exec1 :: "env \<Rightarrow> cmd \<Rightarrow> sys \<Rightarrow> sys" where
  "exec1 E (Create source fn_name seed) s =
     (case from_source E source fn_name seed (wld s) of
        (Inl e, w') \<Rightarrow> s\<lparr>wld := w'\<rparr>
      | (Inr c, w') \<Rightarrow> \<lparr>cands = cands s @ [c], wld = w'\<rparr>)"
| "exec1 E (On i x) s =
     (if i < length (cands s)
      then (case step E x (cands s ! i, wld s) of
              (c', w') \<Rightarrow> \<lparr>cands = (cands s)[i := c'], wld = w'\<rparr>)
      else s)"

definition exec :: "env \<Rightarrow> cmd list \<Rightarrow> sys \<Rightarrow> sys" where
  "exec E cmds s = fold (exec1 E) cmds s"

definition sys_inv :: "sys \<Rightarrow> bool" where
  "sys_inv s = sep (map foot (cands s)) (heap (wld s)) (snd ` set (lru (wld s)))"

section \<open>A concrete run\<close>

text \<open>
  A translation unit of two declarations, a renderer that writes the declarations one
  after the other, and an engine that wraps the function body.
\<close>

fun render :: "tree \<Rightarrow> string" where
  "render (Node s ts) = (if s = ''FileAST'' then [] else s) @ concat (map render ts)"

definition ex_g :: tree where
  "ex_g = Node ''int g;'' []"

definition ex_f :: tree where
  "ex_f = Node ''int f(int x)'' [Node ''{return x+1;}'' []]"

definition ex_env :: env where
  "ex_env = \<lparr>parse_extract = (\<lambda>source fn_name.
                if fn_name = ''f'' then Inr ([ex_g], ex_f, []) else Inl FunctionNotFound),
             mutate = (\<lambda>rng t. (None, Node ''/*m*/'' [t], rng + 1)),
             to_c = render\<rparr>"

definition init_world :: world where
  "init_world = \<lparr>heap = [], lru = [], files = {}, trace = []\<rparr>"

definition ex_cand :: Candidate where
  "ex_cand = \<lparr>ast = 4, orig_fn = 1, fn_index = 1, rng_seed = 42, randomizer = 42,
              score_value = None, score_hash = None, cache_source = None\<rparr>"

definition ex_world :: world where
  "ex_world = \<lparr>heap = [NodeObj ex_g, NodeObj ex_f, PyList [0, 1], FileAST 2,
                       FileAST 5, PyList [0, 6], NodeObj ex_f],
               lru = [((''int g; int f(int x){return x+1;}'', ''f''), (1, 1, 3))],
               files = {},
               trace = [ParseCall ''int g; int f(int x){return x+1;}'' ''f'']\<rparr>"

text \<open>An engine that signals a failure after it has changed the function definition.\<close>

definition ex_env_fail :: env where
  "ex_env_fail = ex_env\<lparr>mutate := (\<lambda>rng t. (Some RandomizationFailure, Node ''/*partial*/'' [t], rng + 1))\<rparr>"

definition ex_src :: string where
  "ex_src = ''int g;int f(int x){return x+1;}''"

definition ex_cand_r :: Candidate where
  "ex_cand_r = ex_cand\<lparr>cache_source := Some ex_src\<rparr>"

definition ex_world_r :: world where
  "ex_world_r = ex_world\<lparr>trace := trace ex_world @ [RenderCall 4]\<rparr>"

text \<open>A world whose cache is full.\<close>

definition ex_full :: world where
  "ex_full = \<lparr>heap = [NodeObj ex_f, PyList [0], FileAST 1],
              lru = map (\<lambda>k. ((k, ''f''), (0, 0, 2)))
                      [''a'', ''b'', ''c'', ''d'', ''e'', ''f'', ''g'', ''h'',
                       ''i'', ''j'', ''k'', ''l'', ''m'', ''n'', ''o'', ''p''],
              files = {}, trace = []\<rparr>"

text \<open>Two candidates from the same source, and the first one randomized twice.\<close>

definition init_sys :: sys where
  "init_sys = \<lparr>cands = [], wld = init_world\<rparr>"

definition ex_cand2 :: Candidate where
  "ex_cand2 = \<lparr>ast = 7, orig_fn = 1, fn_index = 1, rng_seed = 7, randomizer = 7,
               score_value = None, score_hash = None, cache_source = None\<rparr>"

definition ex_world2 :: world where
  "ex_world2 = ex_world\<lparr>heap := heap ex_world @ [FileAST 8, PyList [0, 9], NodeObj ex_f]\<rparr>"

definition ex_sys :: sys where
  "ex_sys = \<lparr>cands = [ex_cand, ex_cand2], wld = ex_world2\<rparr>"

definition ex_sys_r :: sys where
  "ex_sys_r = \<lparr>cands = [ex_cand\<lparr>randomizer := 44\<rparr>, ex_cand2],
               wld = ex_world2\<lparr>trace := trace ex_world2 @ [RandomizeCall 4 1, RandomizeCall 4 1],
                               heap := (heap ex_world2)[6 := NodeObj (Node ''/*m*/'' [Node ''/*m*/'' [ex_f]])]\<rparr>\<rparr>"

definition ex_sys1 :: sys where
  "ex_sys1 = \<lparr>cands = [ex_cand], wld = ex_world\<rparr>"

section \<open>The concrete run, evaluated\<close>

lemma ex_from_source:
  "from_source ex_env ''int g; int f(int x){return x+1;}'' ''f'' 42 init_world = (Inr ex_cand, ex_world)"
  by (simp add: from_source_def cached_shared_ast_def shared_ast_def init_world_def ex_env_def
      ex_cand_def ex_world_def alloc_def copy_copy_def deref_def getattr_ext_def setattr_ext_def
      deepcopy_def setitem_def maxsize_def Let_def nth_append)

lemma ex_get_source:
  "get_source ex_env ex_cand ex_world =
     (Inr ''int g;int f(int x){return x+1;}'',
      ex_cand\<lparr>cache_source := Some ''int g;int f(int x){return x+1;}''\<rparr>,
      ex_world\<lparr>trace := trace ex_world @ [RenderCall 4]\<rparr>)"
  by (simp add: get_source_def snapshot_def getattr_ext_def list_items_def node_at_def deref_def
      ex_cand_def ex_world_def ex_env_def ex_g_def ex_f_def Let_def)

lemma ex_fail_get_source:
  "get_source ex_env_fail ex_cand ex_world = (Inr ex_src, ex_cand_r, ex_world_r)"
  by (simp add: get_source_def snapshot_def getattr_ext_def list_items_def node_at_def deref_def
      ex_cand_def ex_world_def ex_env_def ex_env_fail_def ex_g_def ex_f_def Let_def
      ex_src_def ex_cand_r_def ex_world_r_def)

lemma ex_fail_randomize_ast:
  "randomize_ast ex_env_fail ex_cand_r ex_world_r =
     (Inl RandomizationFailure, ex_cand_r\<lparr>randomizer := 43\<rparr>,
      ex_world_r\<lparr>trace := trace ex_world_r @ [RandomizeCall 4 1],
                 heap := (heap ex_world_r)[6 := NodeObj (Node ''/*partial*/'' [ex_f])]\<rparr>)"
  by (simp add: randomize_ast_def randomize_def getattr_ext_def getitem_def node_at_def deref_def
      ex_cand_def ex_world_def ex_env_def ex_env_fail_def Let_def
      ex_cand_r_def ex_world_r_def)

lemma ex_randomize_ast:
  "randomize_ast ex_env ex_cand_r ex_world_r =
     (Inr (), ex_cand_r\<lparr>randomizer := 43, cache_source := None\<rparr>,
      ex_world_r\<lparr>trace := trace ex_world_r @ [RandomizeCall 4 1],
                 heap := (heap ex_world_r)[6 := NodeObj (Node ''/*m*/'' [ex_f])]\<rparr>)"
  by (simp add: randomize_ast_def randomize_def getattr_ext_def getitem_def node_at_def deref_def
      ex_cand_def ex_world_def ex_env_def Let_def ex_cand_r_def ex_world_r_def)

lemma ex_slot:
  "getattr_ext (heap ex_world_r) (ast ex_cand_r) = Inr 5 \<and>
   getitem (heap ex_world_r) 5 (fn_index ex_cand_r) = Inr 6 \<and>
   node_at (heap ex_world_r) 6 = Some ex_f \<and>
   mutate ex_env_fail (randomizer ex_cand_r) ex_f =
     (Some RandomizationFailure, Node ''/*partial*/'' [ex_f], 43)"
  by (simp add: getattr_ext_def getitem_def node_at_def deref_def
      ex_cand_def ex_world_def ex_env_def ex_env_fail_def ex_cand_r_def ex_world_r_def)

lemma ex_cached_fail:
  "cached_shared_ast ex_env ''int g;'' ''h'' init_world =
     (Inl FunctionNotFound, init_world\<lparr>trace := trace init_world @ [ParseCall ''int g;'' ''h'']\<rparr>)"
  by (simp add: cached_shared_ast_def shared_ast_def init_world_def ex_env_def Let_def)

lemma ex_hit:
  "map_of (lru ex_world) (''int g; int f(int x){return x+1;}'', ''f'') = Some (1, 1, 3)"
  by (simp add: ex_world_def)

lemma ex_miss:
  "length (lru ex_full) = 16 \<and> map_of (lru ex_full) (''q'', ''f'') = None \<and>
   fst (cached_shared_ast ex_env ''q'' ''f'' ex_full) = Inr (4, 1, 6)"
  by (simp add: cached_shared_ast_def shared_ast_def ex_full_def ex_env_def alloc_def Let_def
      split: prod.splits)

lemma ex_from_source2:
  "from_source ex_env ''int g; int f(int x){return x+1;}'' ''f'' 7 ex_world = (Inr ex_cand2, ex_world2)"
  by (simp add: from_source_def cached_shared_ast_def ex_env_def
      ex_cand2_def ex_world2_def ex_world_def alloc_def copy_copy_def deref_def getattr_ext_def
      setattr_ext_def deepcopy_def setitem_def Let_def nth_append)

lemma ex_exec:
  "exec ex_env [Create ''int g; int f(int x){return x+1;}'' ''f'' 42,
                Create ''int g; int f(int x){return x+1;}'' ''f'' 7] init_sys = ex_sys"
  by (simp add: exec_def init_sys_def ex_from_source ex_from_source2 ex_sys_def)

lemma ex_exec_r:
  "exec ex_env (map (On 0) [Randomize, Randomize]) ex_sys = ex_sys_r"
  by (simp add: exec_def ex_sys_def ex_sys_r_def randomize_ast_def randomize_def getattr_ext_def
      getitem_def node_at_def deref_def ex_cand_def ex_world_def ex_world2_def ex_env_def Let_def)

lemma ex_render_r:
  "fst (get_source ex_env (cands ex_sys_r ! 0) (wld ex_sys_r)) =
     Inr ''int g;/*m*//*m*/int f(int x){return x+1;}'' \<and>
   fst (get_source ex_env (cands ex_sys_r ! 1) (wld ex_sys_r)) =
     Inr ''int g;int f(int x){return x+1;}''"
  by (simp add: get_source_def snapshot_def getattr_ext_def list_items_def node_at_def deref_def
      ex_sys_r_def ex_cand_def ex_cand2_def ex_world_def ex_world2_def ex_env_def ex_g_def ex_f_def
      Let_def)

lemma ex_exec1:
  "exec ex_env [Create ''int g; int f(int x){return x+1;}'' ''f'' 42] init_sys = ex_sys1"
  by (simp add: exec_def init_sys_def ex_from_source ex_sys1_def)

lemma ex_fetch_hit:
  "cached_shared_ast ex_env ''int g; int f(int x){return x+1;}'' ''f'' (wld ex_sys1) =
     (Inr (1, 1, 3), ex_world)"
  by (simp add: cached_shared_ast_def ex_sys1_def ex_world_def Let_def)

lemma ex_cached_tree:
  "layout (heap ex_world) 3 = Some (2, [0, 1]) \<and>
   snapshot (heap ex_world) 3 = Inr (Node ''FileAST'' [ex_g, ex_f]) \<and>
   node_at (heap ex_world) 1 = Some ex_f"
  by (simp add: layout_def snapshot_def getattr_ext_def list_items_def node_at_def deref_def
      ex_world_def)

section \<open>Rendering and scoring: what each call leaves behind\<close>

lemma removed_append: "removed (xs @ ys) = removed xs @ removed ys"
  by (induction xs rule: removed.induct) auto

lemma scored_append: "scored (xs @ ys) = scored xs @ scored ys"
  by (induction xs rule: scored.induct) auto

lemma rendered_append: "rendered (xs @ ys) = rendered xs @ rendered ys"
  by (induction xs rule: rendered.induct) auto

lemma parsed_append: "parsed (xs @ ys) = parsed xs @ parsed ys"
  by (induction xs rule: parsed.induct) auto

lemma get_source_trace:
  "trace (world_of (get_source E c w)) =
     trace w @ (case cache_source c of None \<Rightarrow> [RenderCall (ast c)] | Some s \<Rightarrow> [])"
  by (simp add: get_source_def world_of_def Let_def split: option.splits sum.splits)

lemma get_source_files:
  "files (world_of (get_source E c w)) = files w"
  by (simp add: get_source_def world_of_def Let_def split: option.splits sum.splits)

lemma get_source_fields:
  "score_value (cand_of (get_source E c w)) = score_value c \<and>
   score_hash (cand_of (get_source E c w)) = score_hash c \<and>
   ast (cand_of (get_source E c w)) = ast c \<and>
   fn_index (cand_of (get_source E c w)) = fn_index c"
  by (simp add: get_source_def cand_of_def Let_def split: option.splits sum.splits)

lemma score_trace:
  "trace (world_of (score E c sc o_file w)) =
     trace w @ [ScoreCall o_file]
     @ (case o_file of None \<Rightarrow> [] | Some p \<Rightarrow> if p \<noteq> [] then [RemoveCall p] else [])
     @ (case sc o_file of
          Inl e \<Rightarrow> []
        | Inr r \<Rightarrow> (case cache_source c of None \<Rightarrow> [RenderCall (ast c)] | Some s \<Rightarrow> []))"
proof (cases "sc o_file")
  case (Inl e)
  then show ?thesis
    by (simp add: score_def world_of_def try_remove_def split: option.splits)
next
  case (Inr r)
  obtain v fp where r: "r = (v, fp)" by (cases r)
  let ?c2 = "c\<lparr>score_value := Some v, score_hash := Some fp\<rparr>"
  let ?w2 = "case o_file of None \<Rightarrow> w\<lparr>trace := trace w @ [ScoreCall o_file]\<rparr>
             | Some p \<Rightarrow> if p \<noteq> [] then try_remove p (w\<lparr>trace := trace w @ [ScoreCall o_file]\<rparr>)
                          else w\<lparr>trace := trace w @ [ScoreCall o_file]\<rparr>"
  have "world_of (score E c sc o_file w) = world_of (get_source E ?c2 ?w2)"
    using Inr r by (simp add: score_def world_of_def Let_def split: prod.splits sum.splits)
  then show ?thesis
    using Inr r by (simp add: get_source_trace try_remove_def split: option.splits)
qed

lemma score_files:
  "files (world_of (score E c sc o_file w)) =
     (case o_file of None \<Rightarrow> files w | Some p \<Rightarrow> if p \<noteq> [] then files w - {p} else files w)"
proof (cases "sc o_file")
  case (Inl e)
  then show ?thesis
    by (simp add: score_def world_of_def try_remove_def split: option.splits)
next
  case (Inr r)
  obtain v fp where r: "r = (v, fp)" by (cases r)
  let ?c2 = "c\<lparr>score_value := Some v, score_hash := Some fp\<rparr>"
  let ?w2 = "case o_file of None \<Rightarrow> w\<lparr>trace := trace w @ [ScoreCall o_file]\<rparr>
             | Some p \<Rightarrow> if p \<noteq> [] then try_remove p (w\<lparr>trace := trace w @ [ScoreCall o_file]\<rparr>)
                          else w\<lparr>trace := trace w @ [ScoreCall o_file]\<rparr>"
  have "world_of (score E c sc o_file w) = world_of (get_source E ?c2 ?w2)"
    using Inr r by (simp add: score_def world_of_def Let_def split: prod.splits sum.splits)
  then show ?thesis
    by (simp add: get_source_files try_remove_def split: option.splits)
qed

lemma removed_tail:
  "removed (case r of Inl e \<Rightarrow> []
            | Inr v \<Rightarrow> (case x of None \<Rightarrow> [RenderCall a] | Some s \<Rightarrow> [])) = []"
  by (cases r; cases x) auto

lemma scored_tail:
  "scored (case r of Inl e \<Rightarrow> []
           | Inr v \<Rightarrow> (case x of None \<Rightarrow> [RenderCall a] | Some s \<Rightarrow> [])) = []"
  by (cases r; cases x) auto

lemma score_raises:
  "sc o_file = Inl e \<Longrightarrow>
   fst (score E c sc o_file w) = Inl e \<and>
   cand_of (score E c sc o_file w) = c\<lparr>score_value := None, score_hash := None\<rparr>"
  by (simp add: score_def cand_of_def Let_def)

lemma score_returns:
  "sc o_file = Inr (v, fp) \<Longrightarrow>
   score_value (cand_of (score E c sc o_file w)) = Some v \<and>
   score_hash (cand_of (score E c sc o_file w)) = Some fp"
proof -
  assume r: "sc o_file = Inr (v, fp)"
  let ?c2 = "c\<lparr>score_value := Some v, score_hash := Some fp\<rparr>"
  let ?w2 = "case o_file of None \<Rightarrow> w\<lparr>trace := trace w @ [ScoreCall o_file]\<rparr>
             | Some p \<Rightarrow> if p \<noteq> [] then try_remove p (w\<lparr>trace := trace w @ [ScoreCall o_file]\<rparr>)
                          else w\<lparr>trace := trace w @ [ScoreCall o_file]\<rparr>"
  have "cand_of (score E c sc o_file w) = cand_of (get_source E ?c2 ?w2)"
    using r by (simp add: score_def cand_of_def Let_def split: prod.splits sum.splits)
  then show ?thesis
    by (simp add: get_source_fields)
qed

text \<open>
  C10. When \<open>score\<close> is called with no artifact path or with the empty path, no removal
  is attempted and no file is removed, and the scorer is still called on that very
  value; with a path that is not empty, that path and no other is handed to the removal.
\<close>

theorem score_absent_artifact:
  "removed (new_events w (world_of (score E c sc None w))) = [] \<and>
   files (world_of (score E c sc None w)) = files w \<and>
   scored (new_events w (world_of (score E c sc None w))) = [None] \<and>
   removed (new_events w (world_of (score E c sc (Some []) w))) = [] \<and>
   files (world_of (score E c sc (Some []) w)) = files w \<and>
   scored (new_events w (world_of (score E c sc (Some []) w))) = [Some []] \<and>
   removed (new_events w (world_of (score E c sc (Some (x # xs)) w))) = [x # xs] \<and>
   scored (new_events w (world_of (score E c sc (Some (x # xs)) w))) = [Some (x # xs)]"
  by (simp add: new_events_def score_trace score_files removed_append scored_append
      removed_tail scored_tail)

text \<open>
  C2. For a call of \<open>score\<close> with a present artifact path, the file is gone from
  persistent storage when the call is over, whatever the scorer does: the removal
  follows the scorer's call at once, also where the scorer raises and the call of
  \<open>score\<close> raises with it.
\<close>

theorem score_removes_artifact:
  "x # xs \<notin> files (world_of (score E c sc (Some (x # xs)) w)) \<and>
   take 2 (new_events w (world_of (score E c sc (Some (x # xs)) w))) =
     [ScoreCall (Some (x # xs)), RemoveCall (x # xs)] \<and>
   (case sc (Some (x # xs)) of
      Inl e \<Rightarrow> fst (score E c sc (Some (x # xs)) w) = Inl e
    | Inr r \<Rightarrow> True)"
proof -
  have "x # xs \<notin> files (world_of (score E c sc (Some (x # xs)) w))"
    by (simp add: score_files)
  moreover have "take 2 (new_events w (world_of (score E c sc (Some (x # xs)) w))) =
     [ScoreCall (Some (x # xs)), RemoveCall (x # xs)]"
    by (simp add: new_events_def score_trace)
  moreover have "case sc (Some (x # xs)) of
      Inl e \<Rightarrow> fst (score E c sc (Some (x # xs)) w) = Inl e
    | Inr r \<Rightarrow> True"
    by (simp add: score_raises split: sum.splits)
  ultimately show ?thesis by simp
qed

lemma get_source_twice:
  assumes "get_source E c w = (Inr s, c1, w1)"
  shows "get_source E c1 w1 = (Inr s, c1, w1) \<and>
         length (rendered (new_events w w1)) \<le> 1 \<and>
         rendered (new_events w1 (world_of (get_source E c1 w1))) = []"
proof -
  have c1: "cache_source c1 = Some s"
    using assms by (auto simp: get_source_def Let_def split: option.splits sum.splits)
  have again: "get_source E c1 w1 = (Inr s, c1, w1)"
    using c1 by (simp add: get_source_def)
  have "trace w1 = trace w @ (case cache_source c of None \<Rightarrow> [RenderCall (ast c)] | Some s \<Rightarrow> [])"
    using get_source_trace [of E c w] assms by (simp add: world_of_def)
  then have "length (rendered (new_events w w1)) \<le> 1"
    by (simp add: new_events_def split: option.splits)
  then show ?thesis
    using again by (simp add: world_of_def new_events_def)
qed

section \<open>The score and its fingerprint\<close>

lemma from_source_fresh:
  assumes "from_source E source fn_name seed w = (Inr c, w')"
  shows "score_value c = None \<and> score_hash c = None \<and> cache_source c = None \<and>
         rng_seed c = seed \<and> randomizer c = seed"
  using assms by (auto simp: from_source_def split: prod.splits sum.splits)

lemma randomize_ast_fields:
  "score_value (cand_of (randomize_ast E c w)) = score_value c \<and>
   score_hash (cand_of (randomize_ast E c w)) = score_hash c \<and>
   ast (cand_of (randomize_ast E c w)) = ast c \<and>
   fn_index (cand_of (randomize_ast E c w)) = fn_index c"
  by (simp add: randomize_ast_def cand_of_def Let_def split: prod.splits sum.splits)

lemma compile_cand:
  "cand_of (compile E c cc b w) = cand_of (get_source E c w)"
  by (simp add: compile_def cand_of_def split: prod.splits sum.splits)

lemma step_paired: "paired (fst s) \<Longrightarrow> paired (fst (step E x s))"
proof (cases s)
  case (Pair c w)
  assume p: "paired (fst s)"
  show ?thesis
  proof (cases x)
    case Randomize
    then show ?thesis using p Pair randomize_ast_fields [of E c w]
      by (simp add: paired_def cand_of_def)
  next
    case GetSource
    then show ?thesis using p Pair get_source_fields [of E c w]
      by (simp add: paired_def cand_of_def)
  next
    case (Compile cc b)
    then show ?thesis using p Pair get_source_fields [of E c w] compile_cand [of E c cc b w]
      by (simp add: paired_def cand_of_def)
  next
    case (Score sc o_file)
    show ?thesis
    proof (cases "sc o_file")
      case (Inl e)
      then show ?thesis using Score Pair score_raises [of sc o_file e E c w]
        by (simp add: paired_def cand_of_def)
    next
      case (Inr r)
      then show ?thesis using Score Pair score_returns [of sc o_file "fst r" "snd r" E c w]
        by (simp add: paired_def cand_of_def)
    qed
  qed
qed

lemma run_paired: "paired (fst s) \<Longrightarrow> paired (fst (run E ops s))"
  unfolding run_def by (induction ops arbitrary: s) (auto simp: step_paired)

text \<open>
  C3. A candidate built by \<open>from_source\<close> has the score and the fingerprint both unset,
  and after any sequence of randomizations, renderings, compilations and scorings they
  are both unset or both set. A call of \<open>score\<close> whose scorer raises itself raises and
  leaves both unset, whatever they were before; one whose scorer returns a pair leaves
  both set, to that pair.
\<close>

theorem score_fields_paired:
  assumes "from_source E source fn_name seed w = (Inr c, w')"
  shows "paired c \<and> paired (fst (run E ops (c, w'))) \<and>
         (sc o_file = Inl e \<longrightarrow>
            fst (score E c0 sc o_file w0) = Inl e \<and>
            score_value (cand_of (score E c0 sc o_file w0)) = None \<and>
            score_hash (cand_of (score E c0 sc o_file w0)) = None) \<and>
         (sc' o_file' = Inr (v, fp) \<longrightarrow>
            score_value (cand_of (score E c1 sc' o_file' w1)) = Some v \<and>
            score_hash (cand_of (score E c1 sc' o_file' w1)) = Some fp)"
proof -
  have c: "paired c"
    using from_source_fresh [OF assms] by (simp add: paired_def)
  then have "paired (fst (run E ops (c, w')))"
    using run_paired [of "(c, w')" E ops] by simp
  with c show ?thesis
    by (simp add: score_raises score_returns)
qed

theorem score_fields_paired_witness:
  "from_source ex_env ''int g; int f(int x){return x+1;}'' ''f'' 42 init_world = (Inr ex_cand, ex_world) \<and>
   paired ex_cand \<and>
   paired (fst (run ex_env
      [GetSource, Score (\<lambda>p. Inr (0, ''h'')) (Some ''a.o''), Randomize,
       Score (\<lambda>p. Inl ScoringError) None] (ex_cand, ex_world))) \<and>
   fst (score ex_env (ex_cand\<lparr>score_value := Some 3, score_hash := Some ''old''\<rparr>)
          (\<lambda>p. Inl ScoringError) (Some ''a.o'') ex_world) = Inl ScoringError \<and>
   score_value (cand_of (score ex_env (ex_cand\<lparr>score_value := Some 3, score_hash := Some ''old''\<rparr>)
          (\<lambda>p. Inl ScoringError) (Some ''a.o'') ex_world)) = None \<and>
   score_hash (cand_of (score ex_env (ex_cand\<lparr>score_value := Some 3, score_hash := Some ''old''\<rparr>)
          (\<lambda>p. Inl ScoringError) (Some ''a.o'') ex_world)) = None \<and>
   score_value (cand_of (score ex_env ex_cand (\<lambda>p. Inr (0, ''h'')) (Some ''a.o'') ex_world)) = Some 0 \<and>
   score_hash (cand_of (score ex_env ex_cand (\<lambda>p. Inr (0, ''h'')) (Some ''a.o'') ex_world)) = Some ''h''"
  using score_fields_paired [OF ex_from_source,
      of "[GetSource, Score (\<lambda>p. Inr (0, ''h'')) (Some ''a.o''), Randomize,
           Score (\<lambda>p. Inl ScoringError) None]"
         "\<lambda>p. Inl ScoringError" "Some ''a.o''" ScoringError
         "ex_cand\<lparr>score_value := Some 3, score_hash := Some ''old''\<rparr>" ex_world
         "\<lambda>p. Inr (0, ''h'')" "Some ''a.o''" 0 "''h''" ex_cand ex_world]
    ex_from_source
  by simp

section \<open>Randomization and the cached rendering\<close>

text \<open>
  C5, as the claim states it, fails: with an engine that signals a failure, the call of
  \<open>randomize_ast\<close> raises and the rendering cached before is still there.
\<close>

theorem randomize_failure_counterexample:
  "get_source ex_env_fail ex_cand ex_world = (Inr ex_src, ex_cand_r, ex_world_r) \<and>
   fst (randomize_ast ex_env_fail ex_cand_r ex_world_r) = Inl RandomizationFailure \<and>
   cache_source (cand_of (randomize_ast ex_env_fail ex_cand_r ex_world_r)) = Some ex_src \<and>
   \<not> cache_source (cand_of (randomize_ast ex_env_fail ex_cand_r ex_world_r)) = None"
  unfolding ex_fail_get_source ex_fail_randomize_ast cand_of_def
  by (simp add: ex_cand_r_def)

text \<open>
  C5, amended. A call of \<open>randomize_ast\<close> that returns has invalidated the cached
  rendering. When the engine signals a failure, the failure reaches the caller, the
  function definition is left as the engine left it, the engine's random state has
  advanced, and the cached rendering is what it was before the call.
\<close>

theorem randomize_ast_cache:
  "(fst (randomize_ast E c w) = Inr u \<longrightarrow>
      cache_source (cand_of (randomize_ast E c w)) = None) \<and>
   (fst (randomize_ast E c w) = Inl e \<longrightarrow>
      cache_source (cand_of (randomize_ast E c w)) = cache_source c) \<and>
   (getattr_ext (heap w) (ast c) = Inr l \<and> getitem (heap w) l (fn_index c) = Inr f \<and>
    node_at (heap w) f = Some t \<and> mutate E (randomizer c) t = (Some e', t', rng') \<longrightarrow>
      randomize_ast E c w =
        (Inl e', c\<lparr>randomizer := rng'\<rparr>,
         w\<lparr>trace := trace w @ [RandomizeCall (ast c) (fn_index c)],
           heap := (heap w)[f := NodeObj t']\<rparr>))"
  by (auto simp: randomize_ast_def randomize_def cand_of_def Let_def
      split: prod.splits sum.splits option.splits)


theorem randomize_ast_cache_witness:
  "fst (randomize_ast ex_env ex_cand_r ex_world_r) = Inr () \<and>
   cache_source (cand_of (randomize_ast ex_env ex_cand_r ex_world_r)) = None \<and>
   fst (randomize_ast ex_env_fail ex_cand_r ex_world_r) = Inl RandomizationFailure \<and>
   cache_source (cand_of (randomize_ast ex_env_fail ex_cand_r ex_world_r)) = cache_source ex_cand_r \<and>
   randomize_ast ex_env_fail ex_cand_r ex_world_r =
     (Inl RandomizationFailure, ex_cand_r\<lparr>randomizer := 43\<rparr>,
      ex_world_r\<lparr>trace := trace ex_world_r @ [RandomizeCall (ast ex_cand_r) (fn_index ex_cand_r)],
                 heap := (heap ex_world_r)[6 := NodeObj (Node ''/*partial*/'' [ex_f])]\<rparr>)"
  using randomize_ast_cache [where E = ex_env and c = ex_cand_r and w = ex_world_r and u = "()"]
    randomize_ast_cache [where E = ex_env_fail and c = ex_cand_r and w = ex_world_r
      and e = RandomizationFailure and l = 5 and f = 6 and t = ex_f
      and e' = RandomizationFailure and t' = "Node ''/*partial*/'' [ex_f]" and rng' = 43]
    ex_slot ex_randomize_ast ex_fail_randomize_ast
  by (simp add: cand_of_def ex_cand_r_def ex_cand_def)


section \<open>The shared-tree cache\<close>

lemma shared_ast_trace:
  "trace (snd (shared_ast E source fn_name w)) = trace w @ [ParseCall source fn_name]"
  by (simp add: shared_ast_def alloc_def Let_def split: sum.splits prod.splits)

lemma shared_ast_lru:
  "lru (snd (shared_ast E source fn_name w)) = lru w"
  by (simp add: shared_ast_def alloc_def Let_def split: sum.splits prod.splits)

lemma shared_ast_raises:
  "fst (shared_ast E source fn_name w) = Inl e \<Longrightarrow> parse_extract E source fn_name = Inl e"
  by (simp add: shared_ast_def alloc_def Let_def split: sum.splits prod.splits)

lemma shared_ast_Inl:
  "parse_extract E source fn_name = Inl e \<Longrightarrow>
   shared_ast E source fn_name w = (Inl e, w\<lparr>trace := trace w @ [ParseCall source fn_name]\<rparr>)"
  by (simp add: shared_ast_def)

lemma cached_hit:
  "map_of (lru w) (source, fn_name) = Some v \<Longrightarrow>
   cached_shared_ast E source fn_name w =
     (Inr v, w\<lparr>lru := ((source, fn_name), v) #
                   filter (\<lambda>kv. fst kv \<noteq> (source, fn_name)) (lru w)\<rparr>)"
  by (simp add: cached_shared_ast_def Let_def)

lemma cached_miss:
  "map_of (lru w) (source, fn_name) = None \<Longrightarrow>
   cached_shared_ast E source fn_name w =
     (case shared_ast E source fn_name w of
        (Inl e, w1) \<Rightarrow> (Inl e, w1)
      | (Inr v, w1) \<Rightarrow> (Inr v, w1\<lparr>lru := take maxsize (((source, fn_name), v) # lru w1)\<rparr>))"
  by (simp add: cached_shared_ast_def Let_def)

lemma cached_raises:
  assumes "cached_shared_ast E source fn_name w = (Inl e, w1)"
  shows "map_of (lru w) (source, fn_name) = None \<and> parse_extract E source fn_name = Inl e \<and>
         w1 = w\<lparr>trace := trace w @ [ParseCall source fn_name]\<rparr>"
proof -
  have miss: "map_of (lru w) (source, fn_name) = None"
    using assms by (cases "map_of (lru w) (source, fn_name)") (auto simp: cached_hit)
  obtain r w' where sh: "shared_ast E source fn_name w = (r, w')"
    by (cases "shared_ast E source fn_name w")
  have r: "r = Inl e"
    using assms miss sh by (cases r) (auto simp: cached_miss)
  then have pe: "parse_extract E source fn_name = Inl e"
    using shared_ast_raises [of E source fn_name w e] sh by simp
  then show ?thesis
    using assms miss by (simp add: cached_miss shared_ast_Inl)
qed

lemma cached_entries:
  "set (lru (snd (cached_shared_ast E source fn_name w))) \<subseteq>
     set (lru w) \<union>
     (case fst (cached_shared_ast E source fn_name w) of
        Inl e \<Rightarrow> {} | Inr v \<Rightarrow> {((source, fn_name), v)})"
proof (cases "map_of (lru w) (source, fn_name)")
  case None
  obtain r w' where sh: "shared_ast E source fn_name w = (r, w')"
    by (cases "shared_ast E source fn_name w")
  have "lru w' = lru w" using shared_ast_lru [of E source fn_name w] sh by simp
  then show ?thesis
    using None sh by (cases r) (auto simp: cached_miss dest: in_set_takeD)
next
  case (Some v)
  then show ?thesis by (auto simp: cached_hit)
qed


text \<open>
  C9. When the cached lookup raises for a pair, nothing has been stored: the cache is
  what it was and has no entry for the pair, the normalizer has been called once, and
  the next call with the same pair calls the normalizer again, raises the same failure
  and again stores nothing. After any call, every entry of the cache was there before
  the call or is the triple this call has returned.
\<close>

theorem failure_not_memoized:
  assumes "cached_shared_ast E source fn_name w = (Inl e, w1)"
  shows "lru w1 = lru w \<and>
         map_of (lru w1) (source, fn_name) = None \<and>
         parsed (drop (length (trace w)) (trace w1)) = [(source, fn_name)] \<and>
         fst (cached_shared_ast E source fn_name w1) = Inl e \<and>
         parsed (drop (length (trace w1)) (trace (snd (cached_shared_ast E source fn_name w1)))) =
           [(source, fn_name)] \<and>
         lru (snd (cached_shared_ast E source fn_name w1)) = lru w \<and>
         set (lru (snd (cached_shared_ast E source' fn_name' w'))) \<subseteq>
           set (lru w') \<union>
           (case fst (cached_shared_ast E source' fn_name' w') of
              Inl e \<Rightarrow> {} | Inr v \<Rightarrow> {((source', fn_name'), v)})"
proof -
  note r = cached_raises [OF assms]
  have miss1: "map_of (lru w1) (source, fn_name) = None"
    using r by simp
  have again: "cached_shared_ast E source fn_name w1 =
      (Inl e, w1\<lparr>trace := trace w1 @ [ParseCall source fn_name]\<rparr>)"
    using r miss1 by (simp add: cached_miss shared_ast_Inl)
  show ?thesis
    using r again cached_entries [of E source' fn_name' w'] by simp
qed

theorem failure_not_memoized_witness:
  "cached_shared_ast ex_env ''int g;'' ''h'' init_world =
     (Inl FunctionNotFound, init_world\<lparr>trace := trace init_world @ [ParseCall ''int g;'' ''h'']\<rparr>) \<and>
   lru (init_world\<lparr>trace := trace init_world @ [ParseCall ''int g;'' ''h'']\<rparr>) = lru init_world \<and>
   fst (cached_shared_ast ex_env ''int g;'' ''h''
          (init_world\<lparr>trace := trace init_world @ [ParseCall ''int g;'' ''h'']\<rparr>)) =
     Inl FunctionNotFound \<and>
   parsed (drop (length (trace (init_world\<lparr>trace := trace init_world @ [ParseCall ''int g;'' ''h'']\<rparr>)))
     (trace (snd (cached_shared_ast ex_env ''int g;'' ''h''
          (init_world\<lparr>trace := trace init_world @ [ParseCall ''int g;'' ''h'']\<rparr>))))) =
     [(''int g;'', ''h'')]"
  using failure_not_memoized [OF ex_cached_fail] ex_cached_fail by simp

section \<open>Reading the store\<close>

lemma node_at_Some_iff:
  "node_at h b = Some t \<longleftrightarrow> b < length h \<and> h ! b = NodeObj t"
  by (auto simp: node_at_def deref_def split: obj.splits if_splits)

lemma node_at_None_iff:
  "node_at h b \<noteq> None \<longleftrightarrow> b < length h \<and> (\<exists>t. h ! b = NodeObj t)"
  by (cases "node_at h b") (auto simp: node_at_def deref_def split: obj.splits if_splits)

lemma layout_Some_iff:
  "layout h a = Some (l, xs) \<longleftrightarrow>
     a < length h \<and> h ! a = FileAST l \<and> l < length h \<and> h ! l = PyList xs \<and>
     (\<forall>b\<in>set xs. b < length h \<and> (\<exists>t. h ! b = NodeObj t))"
proof -
  have "layout h a = Some (l, xs) \<longleftrightarrow>
     a < length h \<and> h ! a = FileAST l \<and> l < length h \<and> h ! l = PyList xs \<and>
     (\<forall>b\<in>set xs. node_at h b \<noteq> None)"
    by (auto simp: layout_def deref_def list_all_iff simp del: not_None_eq
        split: option.splits obj.splits if_splits)
  then show ?thesis
    unfolding node_at_None_iff by blast
qed

lemma layout_append:
  assumes "layout h a = Some (l, xs)"
  shows "layout (h @ h') a = Some (l, xs)"
  using assms unfolding layout_Some_iff by (auto simp: nth_append)

lemma layout_upd_node:
  assumes "p < length h" and "h ! p = NodeObj t"
  shows "layout (h[p := NodeObj t']) a = layout h a"
proof -
  have eq: "\<And>l xs. layout (h[p := NodeObj t']) a = Some (l, xs) \<longleftrightarrow> layout h a = Some (l, xs)"
    using assms unfolding layout_Some_iff
    by (auto simp: nth_list_update split: if_splits)
  show ?thesis
  proof (cases "layout h a")
    case None
    then show ?thesis using eq by (cases "layout (h[p := NodeObj t']) a") auto
  next
    case (Some q)
    then show ?thesis using eq by (cases q) auto
  qed
qed

lemma those_map_Some:
  assumes "\<forall>b\<in>set xs. f b \<noteq> None"
  shows "those (map f xs) = Some (map (\<lambda>b. the (f b)) xs)"
  using assms by (induction xs) auto

lemma snapshot_layout:
  assumes "layout h a = Some (l, xs)"
  shows "snapshot h a = Inr (Node ''FileAST'' (map (\<lambda>b. the (node_at h b)) xs))"
proof -
  have a: "getattr_ext h a = Inr l" and l: "list_items h l = Inr xs"
    using assms unfolding layout_Some_iff by (auto simp: getattr_ext_def list_items_def deref_def)
  have "\<forall>b\<in>set xs. node_at h b \<noteq> None"
    using assms unfolding layout_Some_iff node_at_None_iff by auto
  then have "those (map (node_at h) xs) = Some (map (\<lambda>b. the (node_at h b)) xs)"
    by (rule those_map_Some)
  then show ?thesis
    using a l by (simp add: snapshot_def)
qed

lemma snapshot_upd_node:
  assumes "layout h a = Some (l, xs)" and "p \<notin> set xs" and "p < length h" and "h ! p = NodeObj t"
  shows "snapshot (h[p := NodeObj t']) a = snapshot h a"
proof -
  have l': "layout (h[p := NodeObj t']) a = Some (l, xs)"
    using assms layout_upd_node by simp
  have "node_at (h[p := NodeObj t']) b = node_at h b" if "b \<in> set xs" for b
  proof -
    have "b \<noteq> p" using that assms(2) by auto
    then show ?thesis by (simp add: node_at_def deref_def)
  qed
  then have "map (\<lambda>b. the (node_at (h[p := NodeObj t']) b)) xs = map (\<lambda>b. the (node_at h b)) xs"
    by simp
  then show ?thesis
    using snapshot_layout [OF l'] snapshot_layout [OF assms(1)] by simp
qed

lemma snapshot_append:
  assumes "layout h a = Some (l, xs)"
  shows "snapshot (h @ h') a = snapshot h a"
proof -
  have "map (\<lambda>b. the (node_at (h @ h') b)) xs = map (\<lambda>b. the (node_at h b)) xs"
    using assms unfolding layout_Some_iff by (auto simp: node_at_def deref_def nth_append)
  then show ?thesis
    using snapshot_layout [OF layout_append [OF assms]] snapshot_layout [OF assms] by simp
qed

lemma from_source_layout:
  assumes fetch: "cached_shared_ast E source fn_name w = (Inr (fn0, idx, ast0), w1)"
    and lay: "layout (heap w1) ast0 = Some (l0, xs0)"
    and idx: "idx < length xs0"
    and fn0: "node_at (heap w1) fn0 = Some t"
  shows "from_source E source fn_name seed w =
           (Inr \<lparr>ast = length (heap w1), orig_fn = fn0, fn_index = idx, rng_seed = seed,
                 randomizer = seed, score_value = None, score_hash = None,
                 cache_source = None\<rparr>,
            w1\<lparr>heap := heap w1 @ [FileAST (length (heap w1) + 1),
                                   PyList (xs0[idx := length (heap w1) + 2]), NodeObj t]\<rparr>)"
proof -
  define h where "h = heap w1"
  define n where "n = length h"
  have a0: "ast0 < n" "h ! ast0 = FileAST l0" and l0: "l0 < n" "h ! l0 = PyList xs0"
    using lay unfolding layout_Some_iff h_def n_def by auto
  have f0: "fn0 < n" "h ! fn0 = NodeObj t"
    using fn0 unfolding node_at_Some_iff h_def n_def by auto
  have s1: "copy_copy h ast0 = Inr (n, h @ [FileAST l0])"
    using a0 by (simp add: copy_copy_def deref_def alloc_def n_def)
  have s2: "getattr_ext (h @ [FileAST l0]) n = Inr l0"
    by (simp add: getattr_ext_def deref_def n_def)
  have s3: "copy_copy (h @ [FileAST l0]) l0 = Inr (n + 1, h @ [FileAST l0, PyList xs0])"
    using l0 by (simp add: copy_copy_def deref_def alloc_def n_def nth_append)
  have s4: "setattr_ext (h @ [FileAST l0, PyList xs0]) n (n + 1) =
              Inr (h @ [FileAST (n + 1), PyList xs0])"
    by (simp add: setattr_ext_def deref_def n_def list_update_append)
  have s5: "deepcopy (h @ [FileAST (n + 1), PyList xs0]) fn0 =
              Inr (n + 2, h @ [FileAST (n + 1), PyList xs0, NodeObj t])"
    using f0 by (simp add: deepcopy_def deref_def alloc_def n_def nth_append)
  have s6: "getattr_ext (h @ [FileAST (n + 1), PyList xs0, NodeObj t]) n = Inr (n + 1)"
    by (simp add: getattr_ext_def deref_def n_def)
  have s7: "setitem (h @ [FileAST (n + 1), PyList xs0, NodeObj t]) (n + 1) idx (n + 2) =
              Inr (h @ [FileAST (n + 1), PyList (xs0[idx := n + 2]), NodeObj t])"
    using idx by (simp add: setitem_def deref_def n_def nth_append list_update_append)
  show ?thesis
    unfolding from_source_def fetch
    using s1 s2 s3 s4 s5 s6 s7 by (simp add: h_def [symmetric] n_def [symmetric])
qed

section \<open>Separation of the candidates' objects\<close>

lemma reach_bound: "reach h a \<subseteq> {..<length h}"
proof (cases "layout h a")
  case None
  then show ?thesis by (simp add: reach_def)
next
  case (Some q)
  obtain l xs where q: "q = (l, xs)" by (cases q)
  have "layout h a = Some (l, xs)" using Some q by simp
  then show ?thesis
    unfolding layout_Some_iff reach_def using Some q by auto
qed

lemma own_reach: "slot_ok h p \<Longrightarrow> own h p \<subseteq> reach h (fst p)"
  by (auto simp: slot_ok_def own_def reach_def split: option.splits)

lemma own_bound: "slot_ok h p \<Longrightarrow> own h p \<subseteq> {..<length h}"
  using own_reach [of h p] reach_bound [of h "fst p"] by blast

lemma slot_ok_append: "slot_ok h p \<Longrightarrow> slot_ok (h @ h') p"
  by (auto simp: slot_ok_def layout_append split: option.splits)

lemma own_append: "slot_ok h p \<Longrightarrow> own (h @ h') p = own h p"
  by (auto simp: slot_ok_def own_def layout_append split: option.splits)

lemma entry_ok_append: "entry_ok h v \<Longrightarrow> entry_ok (h @ h') v"
  by (auto simp: entry_ok_def layout_append split: option.splits prod.splits)

lemma entry_ok_layout: "entry_ok h v \<Longrightarrow> layout h (snd (snd v)) \<noteq> None"
  by (auto simp: entry_ok_def split: option.splits prod.splits)

lemma reach_append: "layout h a \<noteq> None \<Longrightarrow> reach (h @ h') a = reach h a"
  by (auto simp: reach_def layout_append split: option.splits)

lemma slot_ok_layout: "slot_ok h p \<Longrightarrow> layout h (fst p) \<noteq> None"
  by (auto simp: slot_ok_def split: option.splits)

lemma sep_append:
  assumes "sep fps h es"
  shows "sep fps (h @ h') es"
proof -
  have e: "\<forall>v\<in>es. entry_ok h v" and s: "\<forall>p\<in>set fps. slot_ok h p"
    using assms by (auto simp: sep_def)
  have r1: "\<forall>v\<in>es. reach (h @ h') (snd (snd v)) = reach h (snd (snd v))"
    using e by (auto simp: reach_append entry_ok_layout simp del: not_None_eq)
  have r2: "\<forall>p\<in>set fps. reach (h @ h') (fst p) = reach h (fst p)"
    using s by (auto simp: reach_append slot_ok_layout simp del: not_None_eq)
  have o: "\<forall>p\<in>set fps. own (h @ h') p = own h p"
    using s by (simp add: own_append)
  show ?thesis
    using assms e s unfolding sep_def
    by (simp add: r1 r2 o entry_ok_append slot_ok_append)
qed

lemma sep_upd_node:
  assumes "sep fps h es" and "p < length h" and "h ! p = NodeObj t"
  shows "sep fps (h[p := NodeObj t']) es"
proof -
  have "layout (h[p := NodeObj t']) = layout h"
    using layout_upd_node [OF assms(2,3)] by auto
  then show ?thesis
    using assms(1) by (simp add: sep_def entry_ok_def slot_ok_def own_def reach_def)
qed

lemma sep_mono: "sep fps h es \<Longrightarrow> es' \<subseteq> es \<Longrightarrow> sep fps h es'"
  unfolding sep_def by blast

lemma sep_new_entry:
  assumes "sep fps h es" and "entry_ok h v"
    and "\<forall>p\<in>set fps. own h p \<inter> reach h (snd (snd v)) = {}"
  shows "sep fps h (insert v es)"
  using assms unfolding sep_def by auto

lemma sep_new_cand:
  assumes "sep fps h es" and "slot_ok h q" and "fst q \<notin> fst ` set fps"
    and "\<forall>v\<in>es. own h q \<inter> reach h (snd (snd v)) = {}"
    and "\<forall>p\<in>set fps. own h q \<inter> reach h (fst p) = {}"
    and "\<forall>p\<in>set fps. own h p \<inter> reach h (fst q) = {}"
  shows "sep (fps @ [q]) h es"
  using assms unfolding sep_def by auto

section \<open>Construction keeps the candidates apart\<close>

lemma shared_ast_Inr:
  assumes "parse_extract E source fn_name = Inr (pre, fn, post)"
  shows "shared_ast E source fn_name w =
     (Inr (length (heap w) + length pre, length pre,
           length (heap w) + length (pre @ fn # post) + 1),
      w\<lparr>trace := trace w @ [ParseCall source fn_name],
        heap := heap w @ (map NodeObj (pre @ fn # post) @
          [PyList [length (heap w) ..< length (heap w) + length (pre @ fn # post)],
           FileAST (length (heap w) + length (pre @ fn # post))])\<rparr>)"
  using assms by (simp add: shared_ast_def alloc_def Let_def)

lemma new_tree_layout:
  assumes "n = length h" and "k = length ts"
  shows "layout (h @ (map NodeObj ts @ [PyList [n ..< n + k], FileAST (n + k)])) (n + k + 1) =
           Some (n + k, [n ..< n + k])"
  unfolding layout_Some_iff using assms by (auto simp: nth_append)

lemma new_tree_entry:
  assumes "n = length h" and "k = length ts" and "i < k"
  shows "entry_ok (h @ (map NodeObj ts @ [PyList [n ..< n + k], FileAST (n + k)]))
           (n + i, i, n + k + 1)"
  using new_tree_layout [OF assms(1,2)] assms(3) by (simp add: entry_ok_def)

lemma new_tree_reach:
  assumes "n = length h" and "k = length ts"
  shows "reach (h @ (map NodeObj ts @ [PyList [n ..< n + k], FileAST (n + k)])) (n + k + 1)
           \<inter> {..<n} = {}"
  using new_tree_layout [OF assms] by (auto simp: reach_def)

lemma map_of_in_set: "map_of xs k = Some v \<Longrightarrow> (k, v) \<in> set xs"
  by (rule map_of_SomeD)

lemma fetch_sep:
  assumes inv: "sep fps (heap w) (snd ` set (lru w))"
    and fetch: "cached_shared_ast E source fn_name w = (r, w1)"
  shows "sep fps (heap w1) (snd ` set (lru w1)) \<and> (\<exists>h'. heap w1 = heap w @ h') \<and>
         (\<forall>v. r = Inr v \<longrightarrow> v \<in> snd ` set (lru w1))"
proof (cases "map_of (lru w) (source, fn_name)")
  case (Some v)
  have w1: "r = Inr v" "w1 = w\<lparr>lru := ((source, fn_name), v) #
                   filter (\<lambda>kv. fst kv \<noteq> (source, fn_name)) (lru w)\<rparr>"
    using fetch Some by (auto simp: cached_hit)
  have "((source, fn_name), v) \<in> set (lru w)"
    using Some by (rule map_of_SomeD)
  then have "snd ` set (lru w1) \<subseteq> snd ` set (lru w)"
    using w1 by force
  then have "sep fps (heap w1) (snd ` set (lru w1))"
    using inv w1 sep_mono by simp
  then show ?thesis using w1 by simp
next
  case None
  show ?thesis
  proof (cases "parse_extract E source fn_name")
    case (Inl e)
    have "w1 = w\<lparr>trace := trace w @ [ParseCall source fn_name]\<rparr>" "r = Inl e"
      using fetch None Inl by (auto simp: cached_miss shared_ast_Inl)
    then show ?thesis using inv by simp
  next
    case (Inr q)
    obtain pre fn post where q: "q = (pre, fn, post)" by (cases q)
    define n where "n = length (heap w)"
    define ts where "ts = pre @ fn # post"
    define k where "k = length ts"
    define h1 where "h1 = heap w @ (map NodeObj ts @ [PyList [n ..< n + k], FileAST (n + k)])"
    define v where "v = (n + length pre, length pre, n + k + 1)"
    have sh: "shared_ast E source fn_name w =
        (Inr v, w\<lparr>trace := trace w @ [ParseCall source fn_name], heap := h1\<rparr>)"
      using shared_ast_Inr [of E source fn_name pre fn post w] Inr q
      by (simp add: v_def h1_def n_def k_def ts_def)
    have r: "r = Inr v" and w1: "heap w1 = h1"
      "lru w1 = take maxsize (((source, fn_name), v) # lru w)"
      using fetch None sh by (auto simp: cached_miss)
    have lt: "length pre < k" by (simp add: k_def ts_def)
    have e: "entry_ok h1 v"
      unfolding h1_def v_def using new_tree_entry [of n "heap w" k ts "length pre"] lt
      by (simp add: n_def k_def)
    have rv: "reach h1 (snd (snd v)) \<inter> {..<n} = {}"
      unfolding h1_def v_def using new_tree_reach [of n "heap w" k ts]
      by (simp add: n_def k_def)
    have s1: "sep fps h1 (snd ` set (lru w))"
      unfolding h1_def using inv by (rule sep_append)
    have "\<forall>p\<in>set fps. own h1 p \<inter> reach h1 (snd (snd v)) = {}"
    proof
      fix p assume p: "p \<in> set fps"
      then have "slot_ok (heap w) p" using inv by (simp add: sep_def)
      then have "own h1 p \<subseteq> {..<n}"
        unfolding h1_def n_def using own_append own_bound by metis
      then show "own h1 p \<inter> reach h1 (snd (snd v)) = {}"
        using rv by blast
    qed
    then have s2: "sep fps h1 (insert v (snd ` set (lru w)))"
      using s1 e sep_new_entry by blast
    have "set (lru w1) \<subseteq> insert ((source, fn_name), v) (set (lru w))"
      using w1(2) set_take_subset [of maxsize "((source, fn_name), v) # lru w"] by simp
    then have sub: "snd ` set (lru w1) \<subseteq> insert v (snd ` set (lru w))"
      by force
    have "v \<in> snd ` set (lru w1)"
      using w1 by (simp add: maxsize_def)
    then show ?thesis
      using sep_mono [OF s2 sub] w1 r by (auto simp: h1_def)
  qed
qed

lemma entry_okD:
  assumes "entry_ok h (fn0, idx, a0)"
  obtains l0 xs0 t where "layout h a0 = Some (l0, xs0)" and "idx < length xs0"
    and "xs0 ! idx = fn0" and "node_at h fn0 = Some t"
proof -
  obtain l0 xs0 where lay: "layout h a0 = Some (l0, xs0)" and i: "idx < length xs0"
    and f: "xs0 ! idx = fn0"
    using assms by (auto simp: entry_ok_def split: option.splits)
  have "fn0 \<in> set xs0" using i f by auto
  then obtain t where "fn0 < length h" "h ! fn0 = NodeObj t"
    using lay unfolding layout_Some_iff by blast
  then have "node_at h fn0 = Some t" by (simp add: node_at_Some_iff)
  with lay i f show ?thesis by (rule that)
qed

lemma copy_layout:
  assumes lay: "layout h a0 = Some (l0, xs0)" and n: "n = length h"
  shows "layout (h @ [FileAST (n + 1), PyList (xs0[idx := n + 2]), NodeObj t]) n =
           Some (n + 1, xs0[idx := n + 2])"
proof -
  have old: "\<forall>b\<in>set xs0. b < length h \<and> (\<exists>t. h ! b = NodeObj t)"
    using lay unfolding layout_Some_iff by blast
  have "\<forall>b\<in>set (xs0[idx := n + 2]). b \<in> set xs0 \<or> b = n + 2"
    using set_update_subset_insert [of xs0 idx "n + 2"] by auto
  then have "\<forall>b\<in>set (xs0[idx := n + 2]).
      b < length (h @ [FileAST (n + 1), PyList (xs0[idx := n + 2]), NodeObj t]) \<and>
      (\<exists>u. (h @ [FileAST (n + 1), PyList (xs0[idx := n + 2]), NodeObj t]) ! b = NodeObj u)"
    using old n by (auto simp: nth_append)
  then show ?thesis
    unfolding layout_Some_iff using n by (simp add: nth_append)
qed

lemma copy_sep:
  assumes inv: "sep fps h es" and v: "(fn0, idx, a0) \<in> es"
    and lay: "layout h a0 = Some (l0, xs0)" and idx: "idx < length xs0"
    and n: "n = length h"
  shows "sep (fps @ [(n, idx)]) (h @ [FileAST (n + 1), PyList (xs0[idx := n + 2]), NodeObj t]) es"
proof -
  define h2 where "h2 = h @ [FileAST (n + 1), PyList (xs0[idx := n + 2]), NodeObj t]"
  have s1: "sep fps h2 es"
    unfolding h2_def using inv by (rule sep_append)
  have lay2: "layout h2 n = Some (n + 1, xs0[idx := n + 2])"
    unfolding h2_def using lay n by (rule copy_layout)
  have ok: "slot_ok h2 (n, idx)"
    using lay2 idx by (simp add: slot_ok_def)
  have own2: "own h2 (n, idx) = {n, n + 1, n + 2}"
    using lay2 idx by (simp add: own_def)
  have reach2: "reach h2 n \<subseteq> {n, n + 1, n + 2} \<union> set xs0"
    using lay2 set_update_subset_insert [of xs0 idx "n + 2"] by (auto simp: reach_def)
  have es: "\<forall>u\<in>es. reach h2 (snd (snd u)) \<subseteq> {..<n}"
  proof
    fix u assume "u \<in> es"
    then have "entry_ok h u" using inv by (simp add: sep_def)
    then have "reach h2 (snd (snd u)) = reach h (snd (snd u))"
      unfolding h2_def using reach_append entry_ok_layout by blast
    then show "reach h2 (snd (snd u)) \<subseteq> {..<n}"
      using reach_bound [of h "snd (snd u)"] n by simp
  qed
  have ps: "\<forall>p\<in>set fps. reach h2 (fst p) \<subseteq> {..<n} \<and> own h2 p = own h p \<and> own h p \<subseteq> {..<n} \<and> fst p < n"
  proof
    fix p assume "p \<in> set fps"
    then have sl: "slot_ok h p" using inv by (simp add: sep_def)
    then have "reach h2 (fst p) = reach h (fst p)"
      unfolding h2_def using reach_append slot_ok_layout by blast
    moreover have "own h2 p = own h p"
      unfolding h2_def using sl by (rule own_append)
    moreover have "own h p \<subseteq> {..<n}"
      using own_bound [OF sl] n by simp
    moreover have "fst p \<in> own h p"
      using sl by (auto simp: slot_ok_def own_def split: option.splits)
    ultimately show "reach h2 (fst p) \<subseteq> {..<n} \<and> own h2 p = own h p \<and> own h p \<subseteq> {..<n} \<and> fst p < n"
      using reach_bound [of h "fst p"] n by auto
  qed
  have fresh: "fst (n, idx) \<notin> fst ` set fps"
    using ps by auto
  have a: "\<forall>u\<in>es. own h2 (n, idx) \<inter> reach h2 (snd (snd u)) = {}"
    using es own2 by fastforce
  have b: "\<forall>p\<in>set fps. own h2 (n, idx) \<inter> reach h2 (fst p) = {}"
    using ps own2 by fastforce
  have c: "\<forall>p\<in>set fps. own h2 p \<inter> reach h2 (fst (n, idx)) = {}"
  proof
    fix p assume p: "p \<in> set fps"
    have "own h p \<inter> reach h a0 = {}"
      using inv p v by (fastforce simp: sep_def)
    moreover have "set xs0 \<subseteq> reach h a0"
      using lay by (auto simp: reach_def)
    ultimately have "own h p \<inter> set xs0 = {}" by blast
    moreover have "own h p \<inter> {n, n + 1, n + 2} = {}"
      using ps p by fastforce
    ultimately have "own h p \<inter> reach h2 n = {}"
      using reach2 by blast
    then show "own h2 p \<inter> reach h2 (fst (n, idx)) = {}"
      using ps p by simp
  qed
  show ?thesis
    using sep_new_cand [OF s1 ok fresh a b c] by (simp add: h2_def)
qed

section \<open>Operations on a candidate and the store\<close>

lemma get_source_heap:
  "heap (world_of (get_source E c w)) = heap w \<and> lru (world_of (get_source E c w)) = lru w"
  by (simp add: get_source_def world_of_def Let_def split: option.splits sum.splits)

lemma compile_heap:
  "heap (world_of (compile E c cc b w)) = heap w \<and> lru (world_of (compile E c cc b w)) = lru w"
proof -
  obtain r c1 w1 where g: "get_source E c w = (r, c1, w1)"
    by (cases "get_source E c w")
  have "heap w1 = heap w \<and> lru w1 = lru w"
    using get_source_heap [of E c w] g by (simp add: world_of_def)
  then show ?thesis
    using g by (cases r) (auto simp: compile_def world_of_def split: prod.splits)
qed

lemma score_heap:
  "heap (world_of (score E c sc o_file w)) = heap w \<and>
   lru (world_of (score E c sc o_file w)) = lru w"
proof (cases "sc o_file")
  case (Inl e)
  then show ?thesis
    by (simp add: score_def world_of_def try_remove_def Let_def split: option.splits)
next
  case (Inr r)
  obtain v fp where r: "r = (v, fp)" by (cases r)
  let ?c2 = "c\<lparr>score_value := Some v, score_hash := Some fp\<rparr>"
  let ?w2 = "case o_file of None \<Rightarrow> w\<lparr>trace := trace w @ [ScoreCall o_file]\<rparr>
             | Some p \<Rightarrow> if p \<noteq> [] then try_remove p (w\<lparr>trace := trace w @ [ScoreCall o_file]\<rparr>)
                          else w\<lparr>trace := trace w @ [ScoreCall o_file]\<rparr>"
  have "world_of (score E c sc o_file w) = world_of (get_source E ?c2 ?w2)"
    using Inr r by (simp add: score_def world_of_def Let_def split: prod.splits sum.splits)
  then show ?thesis
    by (simp add: get_source_heap try_remove_def split: option.splits)
qed

lemma randomize_ast_heap:
  "lru (world_of (randomize_ast E c w)) = lru w \<and>
   (heap (world_of (randomize_ast E c w)) = heap w \<or>
    (\<exists>l p t t'. getattr_ext (heap w) (ast c) = Inr l \<and> getitem (heap w) l (fn_index c) = Inr p \<and>
       node_at (heap w) p = Some t \<and>
       heap (world_of (randomize_ast E c w)) = (heap w)[p := NodeObj t']))"
  by (auto simp: randomize_ast_def randomize_def world_of_def Let_def
      split: prod.splits sum.splits option.splits)

lemma slot_in_own:
  assumes "slot_ok h (a, i)" and "getattr_ext h a = Inr l" and "getitem h l i = Inr p"
  shows "p \<in> own h (a, i)"
proof -
  obtain l' xs where lay: "layout h a = Some (l', xs)" and i: "i < length xs"
    using assms(1) by (auto simp: slot_ok_def split: option.splits)
  have "l = l'"
    using lay assms(2) unfolding layout_Some_iff by (auto simp: getattr_ext_def deref_def)
  then have "p = xs ! i"
    using lay assms(3) i unfolding layout_Some_iff by (auto simp: getitem_def deref_def)
  then show ?thesis using lay by (simp add: own_def)
qed

text \<open>What one operation on a candidate does to the store.\<close>

lemma step_frame:
  assumes "step E x (c, w) = (c', w')"
  shows "foot c' = foot c \<and> lru w' = lru w \<and>
         (heap w' = heap w \<or>
          (\<exists>p t t'. node_at (heap w) p = Some t \<and> heap w' = (heap w)[p := NodeObj t'] \<and>
             (slot_ok (heap w) (foot c) \<longrightarrow> p \<in> own (heap w) (foot c))))"
proof (cases x)
  case Randomize
  have c': "c' = cand_of (randomize_ast E c w)" and w': "w' = world_of (randomize_ast E c w)"
    using assms Randomize by (auto simp: cand_of_def world_of_def)
  have f: "foot c' = foot c"
    using randomize_ast_fields [of E c w] c' by (simp add: foot_def)
  show ?thesis
    using randomize_ast_heap [of E c w] f w' slot_in_own [of "heap w" "ast c" "fn_index c"]
    by (fastforce simp: foot_def)
next
  case GetSource
  have c': "c' = cand_of (get_source E c w)" and w': "w' = world_of (get_source E c w)"
    using assms GetSource by (auto simp: cand_of_def world_of_def)
  show ?thesis
    using get_source_fields [of E c w] get_source_heap [of E c w] c' w' by (simp add: foot_def)
next
  case (Compile cc b)
  have c': "c' = cand_of (compile E c cc b w)" and w': "w' = world_of (compile E c cc b w)"
    using assms Compile by (auto simp: cand_of_def world_of_def)
  show ?thesis
    using get_source_fields [of E c w] compile_cand [of E c cc b w] compile_heap [of E c cc b w] c' w'
    by (simp add: foot_def)
next
  case (Score sc o_file)
  have c': "c' = cand_of (score E c sc o_file w)" and w': "w' = world_of (score E c sc o_file w)"
    using assms Score by (auto simp: cand_of_def world_of_def)
  have "ast c' = ast c \<and> fn_index c' = fn_index c"
  proof (cases "sc o_file")
    case (Inl e)
    then show ?thesis using score_raises [of sc o_file e E c w] c' by simp
  next
    case (Inr r)
    obtain v fp where r: "r = (v, fp)" by (cases r)
    let ?c2 = "c\<lparr>score_value := Some v, score_hash := Some fp\<rparr>"
    let ?w2 = "case o_file of None \<Rightarrow> w\<lparr>trace := trace w @ [ScoreCall o_file]\<rparr>
             | Some p \<Rightarrow> if p \<noteq> [] then try_remove p (w\<lparr>trace := trace w @ [ScoreCall o_file]\<rparr>)
                          else w\<lparr>trace := trace w @ [ScoreCall o_file]\<rparr>"
    have "cand_of (score E c sc o_file w) = cand_of (get_source E ?c2 ?w2)"
      using Inr r by (simp add: score_def cand_of_def Let_def split: prod.splits sum.splits)
    then show ?thesis
      using get_source_fields [of E ?c2 ?w2] c' by simp
  qed
  then show ?thesis
    using score_heap [of E c sc o_file w] w' by (simp add: foot_def)
qed

lemma from_source_raises:
  "cached_shared_ast E source fn_name w = (Inl e, w1) \<Longrightarrow>
   from_source E source fn_name seed w = (Inl e, w1)"
  by (simp add: from_source_def)

lemma from_source_sep:
  assumes inv: "sep fps (heap w) (snd ` set (lru w))"
    and fs: "from_source E source fn_name seed w = (r, w2)"
  shows "case r of
           Inl e \<Rightarrow> sep fps (heap w2) (snd ` set (lru w2))
         | Inr c \<Rightarrow> sep (fps @ [foot c]) (heap w2) (snd ` set (lru w2))"
proof -
  obtain r1 w1 where fetch: "cached_shared_ast E source fn_name w = (r1, w1)"
    by (cases "cached_shared_ast E source fn_name w")
  note f = fetch_sep [OF inv fetch]
  show ?thesis
  proof (cases r1)
    case (Inl e)
    then show ?thesis
      using f fs fetch from_source_raises [of E source fn_name w e w1 seed] by auto
  next
    case (Inr v)
    obtain fn0 idx a0 where v: "v = (fn0, idx, a0)" by (cases v)
    have mem: "(fn0, idx, a0) \<in> snd ` set (lru w1)"
      using f Inr v by simp
    then have "entry_ok (heap w1) (fn0, idx, a0)"
      using f by (auto simp: sep_def)
    then obtain l0 xs0 t where lay: "layout (heap w1) a0 = Some (l0, xs0)"
      and idx: "idx < length xs0" and t: "node_at (heap w1) fn0 = Some t"
      by (rule entry_okD)
    note res = from_source_layout [of E source fn_name w fn0 idx a0 w1 l0 xs0 t seed]
    have fetch': "cached_shared_ast E source fn_name w = (Inr (fn0, idx, a0), w1)"
      using fetch Inr v by simp
    have sp: "sep (fps @ [(length (heap w1), idx)])
        (heap w1 @ [FileAST (length (heap w1) + 1), PyList (xs0[idx := length (heap w1) + 2]), NodeObj t])
        (snd ` set (lru w1))"
      using copy_sep [OF conjunct1 [OF f] mem lay idx refl] .
    show ?thesis
      using res [OF fetch' lay idx t] fs sp by (auto simp: foot_def)
  qed
qed

lemma exec1_inv:
  assumes "sys_inv s"
  shows "sys_inv (exec1 E x s)"
proof (cases x)
  case (Create source fn_name seed)
  obtain r w2 where fs: "from_source E source fn_name seed (wld s) = (r, w2)"
    by (cases "from_source E source fn_name seed (wld s)")
  show ?thesis
    using from_source_sep [OF assms [unfolded sys_inv_def] fs] fs Create
    by (cases r) (auto simp: sys_inv_def)
next
  case (On i y)
  show ?thesis
  proof (cases "i < length (cands s)")
    case False
    then show ?thesis using assms On by simp
  next
    case True
    obtain c' w' where st: "step E y (cands s ! i, wld s) = (c', w')"
      by (cases "step E y (cands s ! i, wld s)")
    note fr = step_frame [OF st]
    have fp: "map foot ((cands s)[i := c']) = map foot (cands s)"
      using fr True by (simp add: map_update list_update_same_conv)
    have "sep (map foot (cands s)) (heap w') (snd ` set (lru (wld s)))"
      using fr assms sep_upd_node unfolding sys_inv_def node_at_Some_iff by metis
    then show ?thesis
      using On True st fp fr by (simp add: sys_inv_def)
  qed
qed

lemma init_inv: "sys_inv init_sys"
  by (simp add: sys_inv_def init_sys_def init_world_def sep_def)

lemma exec_inv: "sys_inv s \<Longrightarrow> sys_inv (exec E cmds s)"
  unfolding exec_def by (induction cmds arbitrary: s) (auto simp: exec1_inv)

section \<open>Isolation of candidates\<close>

lemma get_source_result:
  "fst (get_source E c w) =
     (case cache_source c of
        Some s \<Rightarrow> Inr s
      | None \<Rightarrow> (case snapshot (heap w) (ast c) of Inl e \<Rightarrow> Inl e | Inr t \<Rightarrow> Inr (to_c E t)))"
  by (simp add: get_source_def Let_def split: option.splits sum.splits)

lemma on_other:
  assumes inv: "sys_inv s" and i: "i < length (cands s)" and j: "j < length (cands s)"
    and ij: "i \<noteq> j"
  shows "length (cands (exec1 E (On i x) s)) = length (cands s) \<and>
         cands (exec1 E (On i x) s) ! j = cands s ! j \<and>
         snapshot (heap (wld (exec1 E (On i x) s))) (ast (cands s ! j)) =
           snapshot (heap (wld s)) (ast (cands s ! j))"
proof -
  define h where "h = heap (wld s)"
  obtain c' w' where st: "step E x (cands s ! i, wld s) = (c', w')"
    by (cases "step E x (cands s ! i, wld s)")
  note fr = step_frame [OF st]
  have s': "exec1 E (On i x) s = \<lparr>cands = (cands s)[i := c'], wld = w'\<rparr>"
    using i st by simp
  note sp = inv [unfolded sys_inv_def sep_def, folded h_def]
  have fi: "foot (cands s ! i) \<in> set (map foot (cands s))"
    and fj: "foot (cands s ! j) \<in> set (map foot (cands s))"
    using i j by auto
  have oki: "slot_ok h (foot (cands s ! i))" and okj: "slot_ok h (foot (cands s ! j))"
    using sp fi fj by blast+
  have d: "distinct (map (\<lambda>c. fst (foot c)) (cands s))"
    using sp by (simp add: comp_def)
  have "(map (\<lambda>c. fst (foot c)) (cands s) ! i = map (\<lambda>c. fst (foot c)) (cands s) ! j) = (i = j)"
    using d i j by (intro nth_eq_iff_index_eq) simp_all
  then have ne: "fst (foot (cands s ! i)) \<noteq> fst (foot (cands s ! j))"
    using i j ij by simp
  have disj: "own h (foot (cands s ! i)) \<inter> reach h (fst (foot (cands s ! j))) = {}"
    using sp fi fj ne by blast
  obtain l xs where lay: "layout h (ast (cands s ! j)) = Some (l, xs)"
    using okj by (auto simp: slot_ok_def foot_def split: option.splits)
  have snap: "snapshot (heap w') (ast (cands s ! j)) = snapshot h (ast (cands s ! j))"
  proof (cases "heap w' = h")
    case True
    then show ?thesis by simp
  next
    case False
    then obtain p t t' where p: "node_at h p = Some t" "heap w' = h[p := NodeObj t']"
      "p \<in> own h (foot (cands s ! i))"
      using fr oki by (auto simp: h_def)
    have "set xs \<subseteq> reach h (fst (foot (cands s ! j)))"
      using lay by (auto simp: reach_def foot_def)
    then have "p \<notin> set xs" using p(3) disj by blast
    then show ?thesis
      using snapshot_upd_node [OF lay _ _ _, of p t t'] p(1,2)
      by (simp add: node_at_Some_iff)
  qed
  show ?thesis
    using s' snap ij j by (simp add: h_def)
qed

lemma ops_other:
  assumes "sys_inv s" and "i < length (cands s)" and "j < length (cands s)" and "i \<noteq> j"
  shows "length (cands (exec E (map (On i) ops) s)) = length (cands s) \<and>
         cands (exec E (map (On i) ops) s) ! j = cands s ! j \<and>
         snapshot (heap (wld (exec E (map (On i) ops) s))) (ast (cands s ! j)) =
           snapshot (heap (wld s)) (ast (cands s ! j))"
  using assms
proof (induction ops arbitrary: s)
  case Nil
  then show ?case by (simp add: exec_def)
next
  case (Cons x ops)
  let ?s1 = "exec1 E (On i x) s"
  note one = on_other [OF Cons.prems, of E x]
  have inv1: "sys_inv ?s1" using Cons.prems(1) by (rule exec1_inv)
  have i1: "i < length (cands ?s1)" and j1: "j < length (cands ?s1)"
    using one Cons.prems by simp_all
  note rest = Cons.IH [OF inv1 i1 j1 Cons.prems(4)]
  have "exec E (map (On i) (x # ops)) s = exec E (map (On i) ops) ?s1"
    by (simp add: exec_def)
  then show ?case
    using one rest by simp
qed

text \<open>
  C1. In any state reached by building candidates and operating on them, whatever is
  done to one candidate, any number of randomizations included, leaves the tree read
  from every other candidate, and so the source text its rendering returns, as it was.
  This holds for two candidates built from the same source text and function name,
  which share the cached tree's declarations, as for any other two. The rendering of
  the other candidate succeeds.
\<close>

theorem candidates_isolated:
  assumes "s = exec E cmds init_sys" and "i < length (cands s)" and "j < length (cands s)"
    and "i \<noteq> j" and "s' = exec E (map (On i) ops) s"
  shows "(\<exists>t. snapshot (heap (wld s)) (ast (cands s ! j)) = Inr t) \<and>
         snapshot (heap (wld s')) (ast (cands s' ! j)) = snapshot (heap (wld s)) (ast (cands s ! j)) \<and>
         fst (get_source E (cands s' ! j) (wld s')) = fst (get_source E (cands s ! j) (wld s))"
proof -
  have inv: "sys_inv s"
    using assms(1) exec_inv [OF init_inv] by simp
  note o = ops_other [OF inv assms(2,3,4), of E ops, folded assms(5)]
  have "slot_ok (heap (wld s)) (foot (cands s ! j))"
    using inv assms(3) by (simp add: sys_inv_def sep_def)
  then obtain l xs where "layout (heap (wld s)) (ast (cands s ! j)) = Some (l, xs)"
    by (auto simp: slot_ok_def foot_def split: option.splits)
  then have ex: "\<exists>t. snapshot (heap (wld s)) (ast (cands s ! j)) = Inr t"
    using snapshot_layout by blast
  have same: "cands s' ! j = cands s ! j"
    and snap: "snapshot (heap (wld s')) (ast (cands s ! j)) =
               snapshot (heap (wld s)) (ast (cands s ! j))"
    using o by simp_all
  have "fst (get_source E (cands s' ! j) (wld s')) = fst (get_source E (cands s ! j) (wld s))"
    unfolding get_source_result same snap ..
  then show ?thesis
    using ex snap same by simp
qed

theorem candidates_isolated_witness:
  "ex_sys = exec ex_env [Create ''int g; int f(int x){return x+1;}'' ''f'' 42,
                         Create ''int g; int f(int x){return x+1;}'' ''f'' 7] init_sys \<and>
   (0::nat) < length (cands ex_sys) \<and> (1::nat) < length (cands ex_sys) \<and>
   ex_sys_r = exec ex_env (map (On 0) [Randomize, Randomize]) ex_sys \<and>
   fst (get_source ex_env (cands ex_sys_r ! 1) (wld ex_sys_r)) =
     fst (get_source ex_env (cands ex_sys ! 1) (wld ex_sys)) \<and>
   fst (get_source ex_env (cands ex_sys_r ! 1) (wld ex_sys_r)) =
     Inr ''int g;int f(int x){return x+1;}'' \<and>
   fst (get_source ex_env (cands ex_sys_r ! 0) (wld ex_sys_r)) =
     Inr ''int g;/*m*//*m*/int f(int x){return x+1;}''"
proof -
  have l: "(0::nat) < length (cands ex_sys)" "(1::nat) < length (cands ex_sys)"
    by (simp_all add: ex_sys_def)
  have ne: "(0::nat) \<noteq> 1" by simp
  note iso = candidates_isolated [OF ex_exec [symmetric] l ne ex_exec_r [symmetric]]
  show ?thesis
    using iso l ex_exec ex_exec_r ex_render_r by simp
qed

section \<open>Copy-on-write construction\<close>

lemma reachable_entry:
  assumes "s = exec E cmds init_sys"
    and "cached_shared_ast E source fn_name (wld s) = (Inr v, w1)"
  shows "entry_ok (heap w1) v"
proof -
  have "sys_inv s" using assms(1) exec_inv [OF init_inv] by simp
  then have "sep (map foot (cands s)) (heap (wld s)) (snd ` set (lru (wld s)))"
    by (simp add: sys_inv_def)
  from fetch_sep [OF this assms(2)] show ?thesis
    by (auto simp: sep_def)
qed

text \<open>
  C4. In any reachable world, when the cached lookup returns the triple of function
  node, index and tree, \<open>from_source\<close> succeeds and adds exactly three objects to the
  store: a new \<open>FileAST\<close> object, a new list whose items are the cached list's items
  (the same objects, not copies) except at the function index, and there a new node
  holding a subtree equal to the cached function node's. No object that existed before
  is changed, and assigning to the new list's slot afterwards leaves the cached list
  and the cached function node as they were.
\<close>

theorem from_source_copy_on_write:
  assumes "s = exec E cmds init_sys"
    and "cached_shared_ast E source fn_name (wld s) = (Inr (fn0, idx, ast0), w1)"
  shows "\<exists>l0 xs0 t.
           layout (heap w1) ast0 = Some (l0, xs0) \<and> idx < length xs0 \<and> xs0 ! idx = fn0 \<and>
           node_at (heap w1) fn0 = Some t \<and>
           ast0 < length (heap w1) \<and> l0 < length (heap w1) \<and> fn0 < length (heap w1) \<and>
           from_source E source fn_name seed (wld s) =
             (Inr \<lparr>ast = length (heap w1), orig_fn = fn0, fn_index = idx, rng_seed = seed,
                   randomizer = seed, score_value = None, score_hash = None,
                   cache_source = None\<rparr>,
              w1\<lparr>heap := heap w1 @ [FileAST (length (heap w1) + 1),
                                     PyList (xs0[idx := length (heap w1) + 2]), NodeObj t]\<rparr>) \<and>
           (\<forall>b. \<exists>h'. setitem (heap (snd (from_source E source fn_name seed (wld s))))
                          (length (heap w1) + 1) idx b = Inr h' \<and>
                        list_items h' l0 = Inr xs0 \<and> node_at h' fn0 = Some t)"
proof -
  have "entry_ok (heap w1) (fn0, idx, ast0)"
    using assms by (rule reachable_entry)
  then obtain l0 xs0 t where lay: "layout (heap w1) ast0 = Some (l0, xs0)"
    and idx: "idx < length xs0" and f: "xs0 ! idx = fn0" and t: "node_at (heap w1) fn0 = Some t"
    by (rule entry_okD)
  define n where "n = length (heap w1)"
  have b: "ast0 < n" "l0 < n" "fn0 < n" "heap w1 ! l0 = PyList xs0" "heap w1 ! fn0 = NodeObj t"
    using lay t unfolding layout_Some_iff node_at_Some_iff n_def by auto
  note res = from_source_layout [OF assms(2) lay idx t, of seed, folded n_def]
  have "\<exists>h'. setitem (heap w1 @ [FileAST (n + 1), PyList (xs0[idx := n + 2]), NodeObj t])
                 (n + 1) idx b = Inr h' \<and>
               list_items h' l0 = Inr xs0 \<and> node_at h' fn0 = Some t" for b
    using idx b
    by (simp add: setitem_def list_items_def node_at_def deref_def n_def nth_append
        list_update_append)
  then show ?thesis
    using lay idx f t b res by (simp add: n_def)
qed

lemma map_update_same:
  "i < length xs \<Longrightarrow> g y = f (xs ! i) \<Longrightarrow> (\<forall>x\<in>set xs. g x = f x) \<Longrightarrow>
   map g (xs[i := y]) = map f xs"
  by (auto simp: list_eq_iff_nth_eq nth_list_update)

text \<open>
  C8, amended. In any reachable world, when the cached lookup succeeds, construction
  succeeds and the new candidate's rendering, with no randomization, is the rendering
  of the cached tree: the whole translation unit, in which the original function node
  is the declaration at the function index.
\<close>

theorem from_source_round_trip:
  assumes "s = exec E cmds init_sys"
    and "cached_shared_ast E source fn_name (wld s) = (Inr (fn0, idx, ast0), w1)"
  shows "\<exists>ts c w2.
           snapshot (heap w1) ast0 = Inr (Node ''FileAST'' ts) \<and>
           idx < length ts \<and> node_at (heap w1) fn0 = Some (ts ! idx) \<and>
           from_source E source fn_name seed (wld s) = (Inr c, w2) \<and>
           fst (get_source E c w2) = Inr (to_c E (Node ''FileAST'' ts))"
proof -
  have "entry_ok (heap w1) (fn0, idx, ast0)"
    using assms by (rule reachable_entry)
  then obtain l0 xs0 t where lay: "layout (heap w1) ast0 = Some (l0, xs0)"
    and idx: "idx < length xs0" and f: "xs0 ! idx = fn0" and t: "node_at (heap w1) fn0 = Some t"
    by (rule entry_okD)
  define h where "h = heap w1"
  define n where "n = length h"
  define h2 where "h2 = h @ [FileAST (n + 1), PyList (xs0[idx := n + 2]), NodeObj t]"
  define ts where "ts = map (\<lambda>b. the (node_at h b)) xs0"
  define c where "c = \<lparr>ast = n, orig_fn = fn0, fn_index = idx, rng_seed = seed,
                   randomizer = seed, score_value = None, score_hash = None,
                   cache_source = None\<rparr>"
  have res: "from_source E source fn_name seed (wld s) = (Inr c, w1\<lparr>heap := h2\<rparr>)"
    using from_source_layout [OF assms(2) lay idx t, of seed]
    by (simp add: c_def h2_def n_def h_def)
  have snap0: "snapshot h ast0 = Inr (Node ''FileAST'' ts)"
    unfolding ts_def h_def using lay by (rule snapshot_layout)
  have lay2: "layout h2 n = Some (n + 1, xs0[idx := n + 2])"
    unfolding h2_def using lay by (intro copy_layout) (simp_all add: h_def n_def)
  have old: "\<forall>b\<in>set xs0. b < n"
    using lay unfolding layout_Some_iff h_def n_def by blast
  have "map (\<lambda>b. the (node_at h2 b)) (xs0[idx := n + 2]) = map (\<lambda>b. the (node_at h b)) xs0"
  proof (rule map_update_same [OF idx])
    have "node_at h2 (n + 2) = Some t"
      unfolding node_at_Some_iff h2_def n_def by (simp add: nth_append)
    then show "the (node_at h2 (n + 2)) = the (node_at h (xs0 ! idx))"
      using t f by (simp add: h_def)
    show "\<forall>x\<in>set xs0. the (node_at h2 x) = the (node_at h x)"
      using old by (auto simp: h2_def node_at_def deref_def n_def nth_append)
  qed
  then have snap2: "snapshot h2 n = Inr (Node ''FileAST'' ts)"
    using snapshot_layout [OF lay2] by (simp add: ts_def)
  have "fst (get_source E c (w1\<lparr>heap := h2\<rparr>)) = Inr (to_c E (Node ''FileAST'' ts))"
    using snap2 by (simp add: get_source_result c_def)
  moreover have "idx < length ts" "node_at h fn0 = Some (ts ! idx)"
    using idx f t by (simp_all add: ts_def h_def)
  ultimately show ?thesis
    using res snap0 by (auto simp: h_def)
qed

theorem from_source_copy_on_write_witness:
  "ex_sys1 = exec ex_env [Create ''int g; int f(int x){return x+1;}'' ''f'' 42] init_sys \<and>
   cached_shared_ast ex_env ''int g; int f(int x){return x+1;}'' ''f'' (wld ex_sys1) =
     (Inr (1, 1, 3), ex_world) \<and>
   layout (heap ex_world) 3 = Some (2, [0, 1]) \<and>
   node_at (heap ex_world) 1 = Some ex_f \<and>
   from_source ex_env ''int g; int f(int x){return x+1;}'' ''f'' 7 (wld ex_sys1) =
     (Inr \<lparr>ast = 7, orig_fn = 1, fn_index = 1, rng_seed = 7, randomizer = 7,
           score_value = None, score_hash = None, cache_source = None\<rparr>,
      ex_world\<lparr>heap := heap ex_world @ [FileAST 8, PyList [0, 9], NodeObj ex_f]\<rparr>)"
proof -
  from from_source_copy_on_write [OF ex_exec1 [symmetric] ex_fetch_hit, of 7]
  obtain l0 xs0 t where
    "layout (heap ex_world) 3 = Some (l0, xs0)" "node_at (heap ex_world) 1 = Some t"
    "from_source ex_env ''int g; int f(int x){return x+1;}'' ''f'' 7 (wld ex_sys1) =
       (Inr \<lparr>ast = length (heap ex_world), orig_fn = 1, fn_index = 1, rng_seed = 7,
             randomizer = 7, score_value = None, score_hash = None, cache_source = None\<rparr>,
        ex_world\<lparr>heap := heap ex_world @ [FileAST (length (heap ex_world) + 1),
                     PyList (xs0[1 := length (heap ex_world) + 2]), NodeObj t]\<rparr>)"
    by blast
  moreover have "length (heap ex_world) = 7"
    by (simp add: ex_world_def)
  ultimately show ?thesis
    using ex_cached_tree ex_exec1 ex_fetch_hit by auto
qed

text \<open>
  C8, as the claim states it, fails: a candidate renders its whole translation unit,
  and with a declaration beside the function that is not the rendering of the function
  node.
\<close>

theorem round_trip_counterexample:
  "from_source ex_env ''int g; int f(int x){return x+1;}'' ''f'' 42 init_world =
     (Inr ex_cand, ex_world) \<and>
   node_at (heap ex_world) (orig_fn ex_cand) = Some ex_f \<and>
   fst (get_source ex_env ex_cand ex_world) = Inr ''int g;int f(int x){return x+1;}'' \<and>
   to_c ex_env ex_f = ''int f(int x){return x+1;}'' \<and>
   fst (get_source ex_env ex_cand ex_world) \<noteq> Inr (to_c ex_env ex_f)"
proof -
  have a: "node_at (heap ex_world) (orig_fn ex_cand) = Some ex_f"
    using ex_cached_tree by (simp add: ex_cand_def)
  have b: "to_c ex_env ex_f = ''int f(int x){return x+1;}''"
    by (simp add: ex_env_def ex_f_def)
  show ?thesis
    using a ex_from_source by (simp add: b ex_get_source)
qed

theorem from_source_round_trip_witness:
  "ex_sys1 = exec ex_env [Create ''int g; int f(int x){return x+1;}'' ''f'' 42] init_sys \<and>
   cached_shared_ast ex_env ''int g; int f(int x){return x+1;}'' ''f'' (wld ex_sys1) =
     (Inr (1, 1, 3), ex_world) \<and>
   snapshot (heap ex_world) 3 = Inr (Node ''FileAST'' [ex_g, ex_f]) \<and>
   from_source ex_env ''int g; int f(int x){return x+1;}'' ''f'' 7 (wld ex_sys1) =
     (Inr ex_cand2, ex_world2) \<and>
   fst (get_source ex_env ex_cand2 ex_world2) = Inr (to_c ex_env (Node ''FileAST'' [ex_g, ex_f]))"
proof -
  have fs: "from_source ex_env ''int g; int f(int x){return x+1;}'' ''f'' 7 (wld ex_sys1) =
     (Inr ex_cand2, ex_world2)"
    using ex_from_source2 by (simp add: ex_sys1_def)
  from from_source_round_trip [OF ex_exec1 [symmetric] ex_fetch_hit, of 7]
  have "fst (get_source ex_env ex_cand2 ex_world2) = Inr (to_c ex_env (Node ''FileAST'' [ex_g, ex_f]))"
    using ex_cached_tree fs by auto
  then show ?thesis
    using ex_cached_tree ex_exec1 ex_fetch_hit fs by simp
qed

section \<open>The memoized rendering\<close>

lemma reachable_renders:
  assumes "s = exec E cmds init_sys" and "j < length (cands s)"
  shows "\<exists>src c1 w1. get_source E (cands s ! j) (wld s) = (Inr src, c1, w1)"
proof -
  have inv: "sys_inv s"
    using assms(1) exec_inv [OF init_inv] by simp
  have "slot_ok (heap (wld s)) (foot (cands s ! j))"
    using inv assms(2) by (simp add: sys_inv_def sep_def)
  then obtain l xs where "layout (heap (wld s)) (ast (cands s ! j)) = Some (l, xs)"
    by (auto simp: slot_ok_def foot_def split: option.splits)
  then obtain t where "snapshot (heap (wld s)) (ast (cands s ! j)) = Inr t"
    using snapshot_layout by blast
  then show ?thesis
    by (simp add: get_source_def Let_def split: option.splits)
qed

text \<open>
  C7. For every candidate of a reachable state, a call of \<open>get_source\<close> returns a text,
  and the next call on the candidate, with no randomization in between, returns the
  same text and changes nothing; the renderer is called at most once by the first call
  and not at all by the second.
\<close>

theorem get_source_memo:
  assumes "s = exec E cmds init_sys" and "j < length (cands s)"
  shows "\<exists>src c1 w1.
           get_source E (cands s ! j) (wld s) = (Inr src, c1, w1) \<and>
           get_source E c1 w1 = (Inr src, c1, w1) \<and>
           length (rendered (new_events (wld s) w1)) \<le> 1 \<and>
           rendered (new_events w1 (world_of (get_source E c1 w1))) = []"
proof -
  obtain src c1 w1 where g: "get_source E (cands s ! j) (wld s) = (Inr src, c1, w1)"
    using reachable_renders [OF assms] by blast
  show ?thesis
    using get_source_twice [OF g] g by blast
qed

theorem get_source_memo_witness:
  "ex_sys1 = exec ex_env [Create ''int g; int f(int x){return x+1;}'' ''f'' 42] init_sys \<and>
   (0::nat) < length (cands ex_sys1) \<and>
   get_source ex_env (cands ex_sys1 ! 0) (wld ex_sys1) = (Inr ex_src, ex_cand_r, ex_world_r) \<and>
   get_source ex_env ex_cand_r ex_world_r = (Inr ex_src, ex_cand_r, ex_world_r) \<and>
   rendered (new_events (wld ex_sys1) ex_world_r) = [4] \<and>
   rendered (new_events ex_world_r (world_of (get_source ex_env ex_cand_r ex_world_r))) = []"
proof -
  have l: "(0::nat) < length (cands ex_sys1)"
    by (simp add: ex_sys1_def)
  have g: "get_source ex_env (cands ex_sys1 ! 0) (wld ex_sys1) = (Inr ex_src, ex_cand_r, ex_world_r)"
    using ex_get_source by (simp add: ex_sys1_def ex_src_def ex_cand_r_def ex_world_r_def)
  have r: "rendered (new_events (wld ex_sys1) ex_world_r) = [4]"
    by (simp add: new_events_def ex_sys1_def ex_world_r_def)
  from get_source_memo [OF ex_exec1 [symmetric] l]
  obtain src c1 w1 where
    "get_source ex_env (cands ex_sys1 ! 0) (wld ex_sys1) = (Inr src, c1, w1)"
    "get_source ex_env c1 w1 = (Inr src, c1, w1)"
    "rendered (new_events w1 (world_of (get_source ex_env c1 w1))) = []"
    by blast
  then show ?thesis
    using g l r ex_exec1 by auto
qed

section \<open>The cache's capacity and order\<close>

lemma cached_cap:
  assumes "length (lru w) \<le> 16"
  shows "length (lru (snd (cached_shared_ast E source fn_name w))) \<le> 16"
proof (cases "map_of (lru w) (source, fn_name)")
  case None
  obtain r w' where sh: "shared_ast E source fn_name w = (r, w')"
    by (cases "shared_ast E source fn_name w")
  have "lru w' = lru w"
    using shared_ast_lru [of E source fn_name w] sh by simp
  then show ?thesis
    using None sh assms by (cases r) (auto simp: cached_miss maxsize_def)
next
  case (Some u)
  then have "(source, fn_name) \<in> fst ` set (lru w)"
    by (metis domI dom_map_of_conv_image_fst)
  then have "length (filter (\<lambda>kv. fst kv \<noteq> (source, fn_name)) (lru w)) < length (lru w)"
    by (auto intro!: length_filter_less)
  then show ?thesis
    using Some assms by (auto simp: cached_hit)
qed

lemma from_source_lru:
  "lru (snd (from_source E source fn_name seed w)) =
   lru (snd (cached_shared_ast E source fn_name w))"
  by (auto simp: from_source_def split: prod.splits sum.splits)

lemma exec1_cap:
  assumes "length (lru (wld s)) \<le> 16"
  shows "length (lru (wld (exec1 E x s))) \<le> 16"
proof (cases x)
  case (Create source fn_name seed)
  have "lru (wld (exec1 E x s)) = lru (snd (from_source E source fn_name seed (wld s)))"
    using Create by (auto split: prod.splits sum.splits)
  then show ?thesis
    using cached_cap [OF assms] by (simp add: from_source_lru)
next
  case (On i y)
  show ?thesis
  proof (cases "i < length (cands s)")
    case False
    then show ?thesis using assms On by simp
  next
    case True
    obtain c' w' where st: "step E y (cands s ! i, wld s) = (c', w')"
      by (cases "step E y (cands s ! i, wld s)")
    then show ?thesis
      using step_frame [OF st] assms On True by simp
  qed
qed

lemma exec_cap:
  "length (lru (wld s)) \<le> 16 \<Longrightarrow> length (lru (wld (exec E cmds s))) \<le> 16"
  unfolding exec_def by (induction cmds arbitrary: s) (auto simp: exec1_cap)

text \<open>
  C6. The cache is keyed on the pair of texts. On a hit the stored triple is returned,
  the normalizer is not called, and nothing changes but the entry becoming the most
  recent one. On a miss the function body is run, the normalizer being called once, and
  a triple it returns is stored as the most recent entry. A call never makes the cache
  grow beyond 16 entries, so no reachable world holds more; a miss on a full cache
  drops the least recently used entry, the last one.
\<close>

theorem cached_shared_ast_lru:
  "(map_of (lru w) (source, fn_name) = Some v \<longrightarrow>
      cached_shared_ast E source fn_name w =
        (Inr v, w\<lparr>lru := ((source, fn_name), v) #
                      filter (\<lambda>kv. fst kv \<noteq> (source, fn_name)) (lru w)\<rparr>) \<and>
      parsed (new_events w (snd (cached_shared_ast E source fn_name w))) = []) \<and>
   (map_of (lru w) (source, fn_name) = None \<longrightarrow>
      fst (cached_shared_ast E source fn_name w) = fst (shared_ast E source fn_name w) \<and>
      parsed (new_events w (snd (cached_shared_ast E source fn_name w))) = [(source, fn_name)] \<and>
      (fst (cached_shared_ast E source fn_name w) = Inr v' \<longrightarrow>
         lru (snd (cached_shared_ast E source fn_name w)) =
           take 16 (((source, fn_name), v') # lru w) \<and>
         map_of (lru (snd (cached_shared_ast E source fn_name w))) (source, fn_name) = Some v')) \<and>
   (length (lru w) \<le> 16 \<longrightarrow> length (lru (snd (cached_shared_ast E source fn_name w))) \<le> 16) \<and>
   length (lru (wld (exec E' cmds init_sys))) \<le> 16 \<and>
   (length (lru w) = 16 \<and> map_of (lru w) (source, fn_name) = None \<and>
    fst (cached_shared_ast E source fn_name w) = Inr v' \<longrightarrow>
      lru (snd (cached_shared_ast E source fn_name w)) = ((source, fn_name), v') # butlast (lru w))"
proof -
  obtain r w' where sh: "shared_ast E source fn_name w = (r, w')"
    by (cases "shared_ast E source fn_name w")
  have l: "lru w' = lru w"
    using shared_ast_lru [of E source fn_name w] sh by simp
  have t: "trace w' = trace w @ [ParseCall source fn_name]"
    using shared_ast_trace [of E source fn_name w] sh by simp
  have hit: "map_of (lru w) (source, fn_name) = Some v \<longrightarrow>
      cached_shared_ast E source fn_name w =
        (Inr v, w\<lparr>lru := ((source, fn_name), v) #
                      filter (\<lambda>kv. fst kv \<noteq> (source, fn_name)) (lru w)\<rparr>) \<and>
      parsed (new_events w (snd (cached_shared_ast E source fn_name w))) = []"
    by (simp add: cached_hit new_events_def)
  have miss: "map_of (lru w) (source, fn_name) = None \<longrightarrow>
      fst (cached_shared_ast E source fn_name w) = fst (shared_ast E source fn_name w) \<and>
      parsed (new_events w (snd (cached_shared_ast E source fn_name w))) = [(source, fn_name)] \<and>
      (fst (cached_shared_ast E source fn_name w) = Inr v' \<longrightarrow>
         lru (snd (cached_shared_ast E source fn_name w)) =
           take 16 (((source, fn_name), v') # lru w) \<and>
         map_of (lru (snd (cached_shared_ast E source fn_name w))) (source, fn_name) = Some v')"
    using sh l t by (cases r) (auto simp: cached_miss new_events_def maxsize_def)
  have cap: "length (lru w) \<le> 16 \<longrightarrow>
      length (lru (snd (cached_shared_ast E source fn_name w))) \<le> 16"
    by (simp add: cached_cap)
  have reach: "length (lru (wld (exec E' cmds init_sys))) \<le> 16"
    by (rule exec_cap) (simp add: init_sys_def init_world_def)
  have evict: "length (lru w) = 16 \<and> map_of (lru w) (source, fn_name) = None \<and>
    fst (cached_shared_ast E source fn_name w) = Inr v' \<longrightarrow>
      lru (snd (cached_shared_ast E source fn_name w)) = ((source, fn_name), v') # butlast (lru w)"
  proof (intro impI, elim conjE)
    assume len: "length (lru w) = 16" and m: "map_of (lru w) (source, fn_name) = None"
      and r: "fst (cached_shared_ast E source fn_name w) = Inr v'"
    have "lru (snd (cached_shared_ast E source fn_name w)) = take 16 (((source, fn_name), v') # lru w)"
      using miss m r by simp
    also have "\<dots> = ((source, fn_name), v') # take 15 (lru w)"
      by simp
    also have "take 15 (lru w) = butlast (lru w)"
      using len by (simp add: butlast_conv_take)
    finally show "lru (snd (cached_shared_ast E source fn_name w)) = ((source, fn_name), v') # butlast (lru w)" .
  qed
  from hit miss cap reach evict show ?thesis by blast
qed


theorem cached_shared_ast_lru_witness:
  "map_of (lru ex_world) (''int g; int f(int x){return x+1;}'', ''f'') = Some (1, 1, 3) \<and>
   fst (cached_shared_ast ex_env ''int g; int f(int x){return x+1;}'' ''f'' ex_world) = Inr (1, 1, 3) \<and>
   parsed (new_events ex_world
     (snd (cached_shared_ast ex_env ''int g; int f(int x){return x+1;}'' ''f'' ex_world))) = [] \<and>
   length (lru ex_full) = 16 \<and> map_of (lru ex_full) (''q'', ''f'') = None \<and>
   fst (cached_shared_ast ex_env ''q'' ''f'' ex_full) = Inr (4, 1, 6) \<and>
   parsed (new_events ex_full (snd (cached_shared_ast ex_env ''q'' ''f'' ex_full))) = [(''q'', ''f'')] \<and>
   length (lru (snd (cached_shared_ast ex_env ''q'' ''f'' ex_full))) \<le> 16 \<and>
   lru (snd (cached_shared_ast ex_env ''q'' ''f'' ex_full)) =
     ((''q'', ''f''), (4, 1, 6)) # butlast (lru ex_full) \<and>
   map_of (lru (snd (cached_shared_ast ex_env ''q'' ''f'' ex_full))) (''q'', ''f'') = Some (4, 1, 6) \<and>
   map_of (lru (snd (cached_shared_ast ex_env ''q'' ''f'' ex_full))) (''p'', ''f'') = None \<and>
   map_of (lru ex_full) (''p'', ''f'') = Some (0, 0, 2)"
proof -
  note hit = cached_shared_ast_lru [where E = ex_env and w = ex_world
      and source = "''int g; int f(int x){return x+1;}''" and fn_name = "''f''" and v = "(1, 1, 3)"]
  note miss = cached_shared_ast_lru [where E = ex_env and w = ex_full
      and source = "''q''" and fn_name = "''f''" and v' = "(4, 1, 6)"]
  have old: "map_of (lru ex_full) (''p'', ''f'') = Some (0, 0, 2)"
    by (simp add: ex_full_def)
  have gone: "map_of (((''q'', ''f''), (4, 1, 6)) # butlast (lru ex_full)) (''p'', ''f'') = None"
    by (simp add: ex_full_def)
  from hit ex_hit have a:
    "cached_shared_ast ex_env ''int g; int f(int x){return x+1;}'' ''f'' ex_world =
       (Inr (1, 1, 3), ex_world\<lparr>lru := ((''int g; int f(int x){return x+1;}'', ''f''), (1, 1, 3)) #
          filter (\<lambda>kv. fst kv \<noteq> (''int g; int f(int x){return x+1;}'', ''f'')) (lru ex_world)\<rparr>)"
    and b: "parsed (new_events ex_world
     (snd (cached_shared_ast ex_env ''int g; int f(int x){return x+1;}'' ''f'' ex_world))) = []"
    by blast+
  from miss ex_miss have c:
    "parsed (new_events ex_full (snd (cached_shared_ast ex_env ''q'' ''f'' ex_full))) = [(''q'', ''f'')]"
    and d: "length (lru (snd (cached_shared_ast ex_env ''q'' ''f'' ex_full))) \<le> 16"
    and e: "lru (snd (cached_shared_ast ex_env ''q'' ''f'' ex_full)) =
              ((''q'', ''f''), (4, 1, 6)) # butlast (lru ex_full)"
    and f: "map_of (lru (snd (cached_shared_ast ex_env ''q'' ''f'' ex_full))) (''q'', ''f'') = Some (4, 1, 6)"
    by (blast, simp, blast, blast)
  have g: "fst (cached_shared_ast ex_env ''int g; int f(int x){return x+1;}'' ''f'' ex_world) = Inr (1, 1, 3)"
    by (simp only: a fst_conv)
  have h: "map_of (lru (snd (cached_shared_ast ex_env ''q'' ''f'' ex_full))) (''p'', ''f'') = None"
    by (simp only: e gone)
  show ?thesis
    by (intro conjI ex_hit g b c d e f h old conjunct1 [OF ex_miss]
        conjunct1 [OF conjunct2 [OF ex_miss]] conjunct2 [OF conjunct2 [OF ex_miss]])
qed

end
